theory Spec2Isabelle
  imports Main "HOL-Library.Word"
begin

unbundle bit_operations_syntax

section \<open>SD card access over SPI and FAT16 file loading (libbase/spi.c)\<close>

text \<open>
  A shallow embedding of \<^verbatim>\<open>litex/soc/software/libbase/spi.c\<close>. The C code targets the
  32-bit VexRiscv core: \<^verbatim>\<open>unsigned char\<close> is an 8-bit word, \<^verbatim>\<open>unsigned short\<close> a 16-bit
  word, \<^verbatim>\<open>unsigned int\<close> and \<^verbatim>\<open>unsigned long\<close> 32-bit words, plain \<^verbatim>\<open>char\<close> is unsigned,
  and multi-byte fields are little-endian. Diagnostic \<^verbatim>\<open>printf\<close> output is not modelled.
\<close>

type_synonym u8 = "8 word"
type_synonym u16 = "16 word"
type_synonym u32 = "32 word"

subsection \<open>Constants of the source\<close>

definition CS_HIGH :: u32 where "CS_HIGH = 0x00"
definition CS_LOW :: u32 where "CS_LOW = 0x01"
definition ONEBYTE :: u32 where "ONEBYTE = 0x0800"
definition SPI_START :: u32 where "SPI_START = 0x01"
definition SPI_DONE :: u32 where "SPI_DONE = 0x01"

text \<open>The return values \<^verbatim>\<open>SUCCESS\<close> (0x01) and \<^verbatim>\<open>FAILURE\<close> (0x00) of the source. \<open>FAULT\<close> is
  not a value the C code returns: it marks a run that executes an operation with no defined
  result in C (a division by zero, a read beyond the 512-byte sector buffer).\<close>

datatype ret = SUCCESS | FAILURE | FAULT

subsection \<open>The SPI core and the attached card\<close>

text \<open>What can be observed on the bus: a byte clocked out on MOSI, a write to the
  chip-select register.\<close>

datatype event = Tx u8 | Cs u32

text \<open>
  The registers of the SPI core together with the card behind it. The card is an
  arbitrary sequence: entry \<open>k\<close> of \<open>card\<close> gives, for the \<open>k\<close>-th byte transfer since
  power-up, the number of status polls that still report "busy" and the byte the card
  shifts out on MISO during that transfer. \<open>pos\<close> counts the transfers made so far.
\<close>

record spi =
  mosi :: u8
  miso :: u8
  busy :: nat
  pos :: nat
  card :: "nat \<Rightarrow> nat \<times> u8"
  trace :: "event list"

text \<open>Modelled from the spec: the register accessors of \<^verbatim>\<open>generated/csr.h\<close>, which is not
  part of the sources. The spec gives the contract of the transport: "transmit one byte"
  blocks until the transport signals completion, "receive one byte" samples the byte
  shifted in by the last transfer, and the device-select line can be asserted and
  deasserted. Writing the control register with the start bit set performs one byte
  transfer; the status register reports \<open>SPI_DONE\<close> once the transfer has finished.\<close>

definition spi_mosi_write :: "u8 \<Rightarrow> spi \<Rightarrow> spi" where
  "spi_mosi_write v s = s\<lparr>mosi := v\<rparr>"

definition spi_control_write :: "u32 \<Rightarrow> spi \<Rightarrow> spi" where
  "spi_control_write v s =
     (if v AND SPI_START \<noteq> 0
      then s\<lparr>miso := snd (card s (pos s)), busy := fst (card s (pos s)),
             pos := Suc (pos s), trace := trace s @ [Tx (mosi s)]\<rparr>
      else s)"

definition spi_status_read :: "spi \<Rightarrow> u32 \<times> spi" where
  "spi_status_read s = (if busy s = 0 then (SPI_DONE, s) else (0, s\<lparr>busy := busy s - 1\<rparr>))"

definition spi_miso_read :: "spi \<Rightarrow> u8" where
  "spi_miso_read s = miso s"

definition spi_cs_write :: "u32 \<Rightarrow> spi \<Rightarrow> spi" where
  "spi_cs_write v s = s\<lparr>trace := trace s @ [Cs v]\<rparr>"

subsection \<open>Command/response engine\<close>

text \<open>\<^verbatim>\<open>while( (spi_status_read() != SPI_DONE)) {}\<close>\<close>

function wait_done :: "spi \<Rightarrow> spi" where
  "wait_done s = (case spi_status_read s of (r, s') \<Rightarrow> if r \<noteq> SPI_DONE then wait_done s' else s')"
  by pat_completeness auto
termination
  by (relation "measure busy") (auto simp: spi_status_read_def split: if_splits)

declare wait_done.simps [simp del]

definition spi_write_byte :: "u8 \<Rightarrow> spi \<Rightarrow> spi" where
  "spi_write_byte char_to_send s =
     (let s1 = spi_mosi_write char_to_send s;
          s2 = spi_control_write (ONEBYTE OR SPI_START) s1;
          s3 = wait_done s2
      in spi_control_write 0x00 s3)"

text \<open>The loop of \<^verbatim>\<open>spi_read_rbyte\<close>; \<open>timeout\<close> is a C \<^verbatim>\<open>int\<close> that runs from 32 down to 0.\<close>

fun rbyte_loop :: "nat \<Rightarrow> u8 \<Rightarrow> spi \<Rightarrow> u8 \<times> spi" where
  "rbyte_loop timeout r s =
     (if (r AND 0x80) \<noteq> 0 \<and> timeout > 0 then
        (let s1 = spi_mosi_write 0xff s;
             s2 = spi_control_write (ONEBYTE OR SPI_START) s1;
             s3 = wait_done s2;
             r' = spi_miso_read s3;
             s4 = spi_control_write 0x00 s3
         in rbyte_loop (timeout - 1) r' s4)
      else (r, s))"

declare rbyte_loop.simps [simp del]

definition spi_read_rbyte :: "spi \<Rightarrow> u8 \<times> spi" where
  "spi_read_rbyte s = rbyte_loop 32 (spi_miso_read s) s"

definition spi_read_byte :: "spi \<Rightarrow> u8 \<times> spi" where
  "spi_read_byte s = (let s' = spi_write_byte 0xff s in (spi_miso_read s', s'))"

subsection \<open>Switching the card to SPI mode\<close>

text \<open>\<^verbatim>\<open>for (i=0; i<10; i++) spi_write_byte( 0xff );\<close>\<close>

function filler_loop :: "nat \<Rightarrow> spi \<Rightarrow> spi" where
  "filler_loop i s = (if i < 10 then filler_loop (i + 1) (spi_write_byte 0xff s) else s)"
  by pat_completeness auto
termination
  by (relation "measure (\<lambda>(i, s). 10 - i)") auto

declare filler_loop.simps [simp del]

text \<open>The \<^verbatim>\<open>do ... while\<close> loop of \<^verbatim>\<open>spi_setspimode\<close>. It is entered with \<open>timeout = 32\<close>; the
  counter is decremented before it is tested, so it never goes below zero. The result
  carries the final \<open>timeout\<close> and the last response \<open>r\<close>.\<close>

function setspimode_loop :: "nat \<Rightarrow> spi \<Rightarrow> nat \<times> u8 \<times> spi" where
  "setspimode_loop timeout s =
     (let s1 = spi_cs_write CS_HIGH s;
          s2 = filler_loop 0 s1;
          s3 = spi_cs_write CS_LOW s2;
          (r, s4) = spi_read_rbyte s3;
          timeout' = timeout - 1
      in if timeout' > 0 \<and> r = 0 then setspimode_loop timeout' s4 else (timeout', r, s4))"
  by pat_completeness auto
termination
  by (relation "measure (\<lambda>(t, s). t)") auto

declare setspimode_loop.simps [simp del]

definition spi_setspimode :: "spi \<Rightarrow> ret \<times> spi" where
  "spi_setspimode s =
     (case setspimode_loop 32 s of
        (timeout, r, s') \<Rightarrow> if timeout = 0 then (FAILURE, s') else (SUCCESS, s'))"

subsection \<open>Memory and the global variables of the FAT16 layer\<close>

text \<open>Where \<^verbatim>\<open>readSector\<close> stores a block: the \<^verbatim>\<open>storage\<close> pointer is either an address in
  main memory (\<^verbatim>\<open>(unsigned char *)address\<close>) or the global array \<^verbatim>\<open>sdCardSector\<close>.\<close>

datatype storage = Ram u32 | Scratch

record PartitionTable =
  first_byte :: u8
  start_chs :: "u8 list"
  partition_type :: u8
  end_chs :: "u8 list"
  start_sector :: u32
  length_sectors :: u32

text \<open>The fields of \<^verbatim>\<open>Fat16BootSector\<close> up to \<^verbatim>\<open>total_sectors_long\<close>; the fields after it
  (drive number, labels, boot code, signature) and the leading jump and OEM codes are only
  printed by the source.\<close>

record Fat16BootSector =
  sector_size :: u16
  sectors_per_cluster :: u8
  reserved_sectors :: u16
  number_of_fats :: u8
  root_dir_entries :: u16
  total_sectors_short :: u16
  media_descriptor :: u8
  fat_size_sectors :: u16
  sectors_per_track :: u16
  number_of_heads :: u16
  hidden_sectors :: u32
  total_sectors_long :: u32

text \<open>
  The part of the machine that \<^verbatim>\<open>readSector\<close> works on: the SPI core, main memory and the
  sector buffer. Main memory \<open>ram\<close> is byte-addressed by 32-bit addresses; the allocation
  table and the root directory live in it once loaded, so a file loaded over them
  overwrites them as in the C program. \<open>sdCardSector\<close> is the 512-byte global array of the
  source, indexed from 0; it is kept apart from \<open>ram\<close>.

  \<open>sd_reads\<close> is a history variable that nothing in the model reads: for every call
  of \<open>readSector\<close> that returned \<open>SUCCESS\<close>, in order, the sector number asked for,
  where the block was stored, and the 512 bytes found there on return.
\<close>

record machine =
  bus :: spi
  ram :: "u32 \<Rightarrow> u8"
  sdCardSector :: "nat \<Rightarrow> u8"
  sd_reads :: "(u32 \<times> storage \<times> u8 list) list"

text \<open>The global variables of the FAT16 layer. \<^verbatim>\<open>spi_sdcard_readMBR\<close> sets them,
  \<^verbatim>\<open>spi_sdcard_readFile\<close> only reads them; they are kept apart from \<open>ram\<close>.\<close>

record globals =
  sdCardPartition :: PartitionTable
  sdCardFatBootSector :: Fat16BootSector
  sdCardFat16RootDir :: u32
  sdCardFatTable :: u32
  fatSectorStart :: u32
  rootDirSectorStart :: u32

fun store_byte :: "storage \<Rightarrow> nat \<Rightarrow> u8 \<Rightarrow> machine \<Rightarrow> machine" where
  "store_byte (Ram a) n v st = st\<lparr>ram := (ram st)(a + of_nat n := v)\<rparr>"
| "store_byte Scratch n v st = st\<lparr>sdCardSector := (sdCardSector st)(n := v)\<rparr>"

fun load_byte :: "storage \<Rightarrow> nat \<Rightarrow> machine \<Rightarrow> u8" where
  "load_byte (Ram a) n st = ram st (a + of_nat n)"
| "load_byte Scratch n st = sdCardSector st n"

subsection \<open>Sector reader\<close>

text \<open>\<^verbatim>\<open>while( (r!=0xfe) && (timeout>0) ) { r=spi_read_byte(); timeout--; }\<close>\<close>

fun token_loop :: "nat \<Rightarrow> u8 \<Rightarrow> spi \<Rightarrow> u8 \<times> spi" where
  "token_loop timeout r s =
     (if r \<noteq> 0xfe \<and> timeout > 0 then
        (case spi_read_byte s of (r', s') \<Rightarrow> token_loop (timeout - 1) r' s')
      else (r, s))"

declare token_loop.simps [simp del]

text \<open>\<^verbatim>\<open>for(n=0; n<512; n++) storage[n]=spi_read_byte();\<close>\<close>

function data_loop :: "nat \<Rightarrow> storage \<Rightarrow> machine \<Rightarrow> machine" where
  "data_loop n storage st =
     (if n < 512 then
        (case spi_read_byte (bus st) of
           (r, s') \<Rightarrow> data_loop (n + 1) storage (store_byte storage n r (st\<lparr>bus := s'\<rparr>)))
      else st)"
  by pat_completeness auto
termination
  by (relation "measure (\<lambda>(n, p, st). 512 - n)") auto

declare data_loop.simps [simp del]

text \<open>\<^verbatim>\<open>for(n=0; n<8; n++) r=spi_read_byte();\<close>\<close>

function dummy_loop :: "nat \<Rightarrow> spi \<Rightarrow> spi" where
  "dummy_loop n s = (if n < 8 then dummy_loop (n + 1) (snd (spi_read_byte s)) else s)"
  by pat_completeness auto
termination
  by (relation "measure (\<lambda>(n, s). 8 - n)") auto

declare dummy_loop.simps [simp del]

text \<open>The seven bytes of the read-block command (CMD17) for a sector number.\<close>

definition cmd17 :: "u32 \<Rightarrow> u8 list" where
  "cmd17 sectorNumber =
     [0xff, 0x51,
      ucast (drop_bit 24 sectorNumber AND 0xff), ucast (drop_bit 16 sectorNumber AND 0xff),
      ucast (drop_bit 8 sectorNumber AND 0xff), ucast (sectorNumber AND 0xff), 0xff]"

definition readSector :: "u32 \<Rightarrow> storage \<Rightarrow> machine \<Rightarrow> ret \<times> machine" where
  "readSector sectorNumber storage st =
     (let s1 = spi_write_byte 0xff (bus st);
          s2 = spi_write_byte 0x51 s1;
          s3 = spi_write_byte (ucast (drop_bit 24 sectorNumber AND 0xff)) s2;
          s4 = spi_write_byte (ucast (drop_bit 16 sectorNumber AND 0xff)) s3;
          s5 = spi_write_byte (ucast (drop_bit 8 sectorNumber AND 0xff)) s4;
          s6 = spi_write_byte (ucast (sectorNumber AND 0xff)) s5;
          s7 = spi_write_byte 0xff s6;
          (r, s8) = spi_read_rbyte s7
      in if r \<noteq> 0x00 then (FAILURE, st\<lparr>bus := s8\<rparr>)
         else
           (let (r1, s9) = spi_read_byte s8;
                (r2, s10) = token_loop 16384 r1 s9
            in if r2 \<noteq> 0xfe then (FAILURE, st\<lparr>bus := s10\<rparr>)
               else
                 (let st1 = data_loop 0 storage (st\<lparr>bus := s10\<rparr>);
                      st2 = st1\<lparr>bus := dummy_loop 0 (bus st1)\<rparr>
                  in (SUCCESS,
                      st2\<lparr>sd_reads := sd_reads st2 @
                         [(sectorNumber, storage, map (\<lambda>n. load_byte storage n st2) [0..<512])]\<rparr>))))"

subsection \<open>Partition table and boot sector\<close>

text \<open>Little-endian fields of a byte sequence, as \<^verbatim>\<open>memcpy\<close> into a packed struct reads them.\<close>

definition le16 :: "(nat \<Rightarrow> u8) \<Rightarrow> nat \<Rightarrow> u16" where
  "le16 f off = ucast (f off) OR push_bit 8 (ucast (f (off + 1)))"

definition le32 :: "(nat \<Rightarrow> u8) \<Rightarrow> nat \<Rightarrow> u32" where
  "le32 f off =
     ucast (f off) OR push_bit 8 (ucast (f (off + 1))) OR
     push_bit 16 (ucast (f (off + 2))) OR push_bit 24 (ucast (f (off + 3)))"

text \<open>\<^verbatim>\<open>memcpy(&sdCardPartition, &sdCardSector[0x1be], sizeof(PartitionTable));\<close>\<close>

definition parse_partition :: "(nat \<Rightarrow> u8) \<Rightarrow> PartitionTable" where
  "parse_partition f =
     \<lparr>first_byte = f 0x1be,
      start_chs = [f 0x1bf, f 0x1c0, f 0x1c1],
      partition_type = f 0x1c2,
      end_chs = [f 0x1c3, f 0x1c4, f 0x1c5],
      start_sector = le32 f 0x1c6,
      length_sectors = le32 f 0x1ca\<rparr>"

text \<open>\<^verbatim>\<open>memcpy(&sdCardFatBootSector, &sdCardSector, sizeof(Fat16BootSector));\<close>\<close>

definition parse_bootsector :: "(nat \<Rightarrow> u8) \<Rightarrow> Fat16BootSector" where
  "parse_bootsector f =
     \<lparr>sector_size = le16 f 11,
      sectors_per_cluster = f 13,
      reserved_sectors = le16 f 14,
      number_of_fats = f 16,
      root_dir_entries = le16 f 17,
      total_sectors_short = le16 f 19,
      media_descriptor = f 21,
      fat_size_sectors = le16 f 22,
      sectors_per_track = le16 f 24,
      number_of_heads = le16 f 26,
      hidden_sectors = le32 f 28,
      total_sectors_long = le32 f 32\<rparr>"

text \<open>\<^verbatim>\<open>sizeof(Fat16Entry)\<close>: 8 + 3 + 1 + 10 + 2 + 2 + 2 + 4 bytes.\<close>

definition sizeof_Fat16Entry :: u32 where
  "sizeof_Fat16Entry = 32"

subsection \<open>Loading the allocation table and the root directory\<close>

text \<open>The loop that reads the allocation table, sector by sector, into main memory.\<close>

function fat_loop :: "globals \<Rightarrow> nat \<Rightarrow> machine \<Rightarrow> ret \<times> machine" where
  "fat_loop g n m =
     (if n < unat (fat_size_sectors (sdCardFatBootSector g)) then
        (case readSector (fatSectorStart g + of_nat n)
                (Ram (sdCardFatTable g + ucast (sector_size (sdCardFatBootSector g)) * of_nat n)) m of
           (r, m') \<Rightarrow> if r = FAILURE then (FAILURE, m') else fat_loop g (n + 1) m')
      else (SUCCESS, m))"
  by pat_completeness auto
termination
  by (relation "measure (\<lambda>(g, n, m). unat (fat_size_sectors (sdCardFatBootSector g)) - n)") auto

declare fat_loop.simps [simp del]

text \<open>The number of sectors the root directory loop reads:
  \<^verbatim>\<open>root_dir_entries*sizeof(Fat16Entry)/sector_size\<close>, an unsigned 32-bit division.\<close>

definition rootdir_sectors :: "globals \<Rightarrow> u32" where
  "rootdir_sectors g =
     (ucast (root_dir_entries (sdCardFatBootSector g)) * sizeof_Fat16Entry)
       div ucast (sector_size (sdCardFatBootSector g))"

function rootdir_loop :: "globals \<Rightarrow> nat \<Rightarrow> machine \<Rightarrow> ret \<times> machine" where
  "rootdir_loop g n m =
     (if n < unat (rootdir_sectors g) then
        (case readSector (rootDirSectorStart g + of_nat n)
                (Ram (ucast (sector_size (sdCardFatBootSector g)) * of_nat n + sdCardFat16RootDir g)) m of
           (r, m') \<Rightarrow> if r = FAILURE then (FAILURE, m') else rootdir_loop g (n + 1) m')
      else (SUCCESS, m))"
  by pat_completeness auto
termination
  by (relation "measure (\<lambda>(g, n, m). unat (rootdir_sectors g) - n)") auto

declare rootdir_loop.simps [simp del]

text \<open>
  \<^verbatim>\<open>spi_sdcard_readMBR\<close> is one long function in the source; it is modelled as its four
  consecutive parts, last part first, each ending in a \<^verbatim>\<open>return\<close> or in the next part.
  \<open>MAIN_RAM_BASE\<close> and \<open>MAIN_RAM_SIZE\<close> come from \<^verbatim>\<open>generated/mem.h\<close>, which is not part of
  the sources: they are parameters. Address arithmetic is 32-bit and wraps.
\<close>

text \<open>"Read in FAT16 Root Directory": place the directory buffer, compute the first sector
  of the root directory and read it. The division in the sector count is first evaluated
  for the diagnostic line printed before the loop; with a sector size of zero the run ends
  there in \<open>FAULT\<close>. The listing of the directory printed afterwards is not modelled.\<close>

definition readMBR_rootdir :: "u32 \<Rightarrow> u32 \<Rightarrow> globals \<Rightarrow> machine \<Rightarrow> ret \<times> globals \<times> machine" where
  "readMBR_rootdir MAIN_RAM_BASE MAIN_RAM_SIZE g m =
     (let bs = sdCardFatBootSector g;
          g1 = g\<lparr>sdCardFat16RootDir :=
                  MAIN_RAM_BASE + MAIN_RAM_SIZE
                    - ucast (sector_size bs) * ucast (fat_size_sectors bs)
                    - ucast (root_dir_entries bs) * sizeof_Fat16Entry\<rparr>
      in if sector_size bs = 0 then (FAULT, g1, m)
         else
           (let g2 = g1\<lparr>rootDirSectorStart :=
                        start_sector (sdCardPartition g1)
                          + ucast (reserved_sectors bs)
                          + ucast (number_of_fats bs) * ucast (fat_size_sectors bs)\<rparr>
            in case rootdir_loop g2 0 m of
                 (r, m') \<Rightarrow> if r = FAILURE then (FAILURE, g2, m') else (SUCCESS, g2, m')))"

text \<open>"Read in FAT16 File Allocation Table": place the table buffer at the top of main
  memory, compute the first sector of the table and read it.\<close>

definition readMBR_fat :: "u32 \<Rightarrow> u32 \<Rightarrow> globals \<Rightarrow> machine \<Rightarrow> ret \<times> globals \<times> machine" where
  "readMBR_fat MAIN_RAM_BASE MAIN_RAM_SIZE g m =
     (let bs = sdCardFatBootSector g;
          g1 = g\<lparr>sdCardFatTable :=
                  MAIN_RAM_BASE + MAIN_RAM_SIZE
                    - ucast (sector_size bs) * ucast (fat_size_sectors bs)\<rparr>;
          g2 = g1\<lparr>fatSectorStart :=
                  start_sector (sdCardPartition g1) + ucast (reserved_sectors bs)\<rparr>
      in case fat_loop g2 0 m of
           (r, m') \<Rightarrow>
             if r = FAILURE then (FAILURE, g2, m')
             else readMBR_rootdir MAIN_RAM_BASE MAIN_RAM_SIZE g2 m')"

text \<open>"Read Partition 1 Boot Sector": read the first sector of the partition, copy it into
  \<^verbatim>\<open>sdCardFatBootSector\<close> and check that the partition is not empty.\<close>

definition readMBR_bootsector :: "u32 \<Rightarrow> u32 \<Rightarrow> globals \<Rightarrow> machine \<Rightarrow> ret \<times> globals \<times> machine" where
  "readMBR_bootsector MAIN_RAM_BASE MAIN_RAM_SIZE g m =
     (case readSector (start_sector (sdCardPartition g)) Scratch m of
        (r, m') \<Rightarrow>
          if r = SUCCESS then
            (let g1 = g\<lparr>sdCardFatBootSector := parse_bootsector (sdCardSector m')\<rparr>
             in if total_sectors_long (sdCardFatBootSector g1) = 0 then (FAILURE, g1, m')
                else readMBR_fat MAIN_RAM_BASE MAIN_RAM_SIZE g1 m')
          else (FAILURE, g, m'))"

text \<open>The function's entry: read sector 0, copy the first partition's descriptor and check
  its status byte and its type.\<close>

definition spi_sdcard_readMBR :: "u32 \<Rightarrow> u32 \<Rightarrow> globals \<Rightarrow> machine \<Rightarrow> ret \<times> globals \<times> machine" where
  "spi_sdcard_readMBR MAIN_RAM_BASE MAIN_RAM_SIZE g m =
     (case readSector 0x00000000 Scratch m of
        (r, m') \<Rightarrow>
          if r = SUCCESS then
            (let g1 = g\<lparr>sdCardPartition := parse_partition (sdCardSector m')\<rparr>
             in if first_byte (sdCardPartition g1) \<noteq> 0x80 \<and> first_byte (sdCardPartition g1) \<noteq> 0x00
                then (FAILURE, g1, m')
                else if partition_type (sdCardPartition g1) = 4 \<or>
                        partition_type (sdCardPartition g1) = 6 \<or>
                        partition_type (sdCardPartition g1) = 14
                then readMBR_bootsector MAIN_RAM_BASE MAIN_RAM_SIZE g1 m'
                else (FAILURE, g1, m'))
          else (FAILURE, g, m'))"

subsection \<open>File locator and cluster-chain reader\<close>

text \<open>\<^verbatim>\<open>strlen\<close>: the number of characters before the first NUL of a caller's string.\<close>

definition strlen :: "u8 list \<Rightarrow> nat" where
  "strlen str = length (takeWhile (\<lambda>c. c \<noteq> 0) str)"

text \<open>Directory entry \<open>n\<close> is the packed 32-byte struct at \<^verbatim>\<open>sdCardFat16RootDir[n]\<close> in main
  memory: \<open>filename\<close> at offset 0, \<open>ext\<close> at offset 8, \<open>starting_cluster\<close> at offset 26 and
  \<open>file_size\<close> at offset 28.\<close>

definition entry_bytes :: "globals \<Rightarrow> machine \<Rightarrow> nat \<Rightarrow> nat \<Rightarrow> u8" where
  "entry_bytes g m n off = ram m (sdCardFat16RootDir g + sizeof_Fat16Entry * of_nat n + of_nat off)"

definition entry_filename :: "globals \<Rightarrow> machine \<Rightarrow> nat \<Rightarrow> nat \<Rightarrow> u8" where
  "entry_filename g m n i = entry_bytes g m n i"

definition entry_ext :: "globals \<Rightarrow> machine \<Rightarrow> nat \<Rightarrow> nat \<Rightarrow> u8" where
  "entry_ext g m n i = entry_bytes g m n (8 + i)"

definition entry_starting_cluster :: "globals \<Rightarrow> machine \<Rightarrow> nat \<Rightarrow> u16" where
  "entry_starting_cluster g m n = le16 (entry_bytes g m n) 26"

definition entry_file_size :: "globals \<Rightarrow> machine \<Rightarrow> nat \<Rightarrow> u32" where
  "entry_file_size g m n = le32 (entry_bytes g m n) 28"

text \<open>\<^verbatim>\<open>for(i=0; i<strlen(str); i++) if(field[i]!=str[i]) nameMatch=0;\<close>, the loop the source
  runs once over the name and once over the extension.\<close>

function cmp_loop :: "(nat \<Rightarrow> u8) \<Rightarrow> u8 list \<Rightarrow> nat \<Rightarrow> u16 \<Rightarrow> u16" where
  "cmp_loop field str i nameMatch =
     (if i < strlen str
      then cmp_loop field str (i + 1) (if field i \<noteq> str ! i then 0 else nameMatch)
      else nameMatch)"
  by pat_completeness auto
termination
  by (relation "measure (\<lambda>(field, str, i, nameMatch). strlen str - i)") auto

declare cmp_loop.simps [simp del]

definition name_match :: "globals \<Rightarrow> machine \<Rightarrow> u8 list \<Rightarrow> u8 list \<Rightarrow> nat \<Rightarrow> u16" where
  "name_match g m filename ext n =
     (if entry_filename g m n 0 \<noteq> 0
      then cmp_loop (entry_ext g m n) ext 0 (cmp_loop (entry_filename g m n) filename 0 1)
      else 0)"

text \<open>One pass through the body of the directory scan; the loop's variables are
  \<open>(fileClusterStart, fileLength, n)\<close>.\<close>

definition scan_step ::
  "globals \<Rightarrow> machine \<Rightarrow> u8 list \<Rightarrow> u8 list \<Rightarrow> u16 \<times> u32 \<times> nat \<Rightarrow> u16 \<times> u32 \<times> nat" where
  "scan_step g m filename ext x =
     (case x of (fileClusterStart, fileLength, n) \<Rightarrow>
        if name_match g m filename ext n = 1
        then (entry_starting_cluster g m n, entry_file_size g m n, n)
        else (fileClusterStart, fileLength, n + 1))"

text \<open>\<^verbatim>\<open>while( (fileClusterStart==0) && (n<sdCardFatBootSector.root_dir_entries) )\<close>. The loop
  need not terminate: \<open>None\<close> is a scan that runs forever.\<close>

partial_function (option) dir_scan ::
  "globals \<Rightarrow> machine \<Rightarrow> u8 list \<Rightarrow> u8 list \<Rightarrow> u16 \<times> u32 \<times> nat \<Rightarrow> (u16 \<times> u32 \<times> nat) option" where
  "dir_scan g m filename ext x =
     (if fst x = 0 \<and> snd (snd x) < unat (root_dir_entries (sdCardFatBootSector g))
      then dir_scan g m filename ext (scan_step g m filename ext x)
      else Some x)"

text \<open>Writing a byte sequence to consecutive addresses, lowest first.\<close>

fun store_bytes :: "u32 \<Rightarrow> u8 list \<Rightarrow> (u32 \<Rightarrow> u8) \<Rightarrow> (u32 \<Rightarrow> u8)" where
  "store_bytes a [] mem = mem"
| "store_bytes a (b # bs) mem = store_bytes (a + 1) bs (mem(a := b))"

text \<open>\<^verbatim>\<open>memcpy((unsigned char *)address, sdCardSector, n);\<close>\<close>

definition memcpy_sector :: "u32 \<Rightarrow> nat \<Rightarrow> machine \<Rightarrow> machine" where
  "memcpy_sector address n m = m\<lparr>ram := store_bytes address (map (sdCardSector m) [0..<n]) (ram m)\<rparr>"

text \<open>The loop over the sectors of one cluster; its variables are
  \<open>(bytesRemaining, address)\<close> and the machine. A copy of more than 512 bytes would read
  beyond \<^verbatim>\<open>sdCardSector\<close>: \<open>FAULT\<close>.\<close>

function sector_loop ::
  "globals \<Rightarrow> u32 \<Rightarrow> nat \<Rightarrow> u32 \<times> u32 \<times> machine \<Rightarrow> ret \<times> u32 \<times> u32 \<times> machine" where
  "sector_loop g clusterSectorStart sector (bytesRemaining, address, m) =
     (if sector < unat (sectors_per_cluster (sdCardFatBootSector g)) then
        (if bytesRemaining > ucast (sector_size (sdCardFatBootSector g)) then
           (case readSector (clusterSectorStart + of_nat sector) (Ram address) m of
              (r, m') \<Rightarrow>
                if r = FAILURE then (FAILURE, bytesRemaining, address, m')
                else sector_loop g clusterSectorStart (sector + 1)
                       (bytesRemaining - ucast (sector_size (sdCardFatBootSector g)),
                        address + ucast (sector_size (sdCardFatBootSector g)), m'))
         else
           (case readSector (clusterSectorStart + of_nat sector) Scratch m of
              (r, m') \<Rightarrow>
                if r = FAILURE then (FAILURE, bytesRemaining, address, m')
                else if 512 < unat bytesRemaining then (FAULT, bytesRemaining, address, m')
                else sector_loop g clusterSectorStart (sector + 1)
                       (0, address, memcpy_sector address (unat bytesRemaining) m')))
      else (SUCCESS, bytesRemaining, address, m))"
  by pat_completeness auto
termination
  by (relation "measure (\<lambda>(g, css, sector, x). unat (sectors_per_cluster (sdCardFatBootSector g)) - sector)")
    auto

declare sector_loop.simps [simp del]

text \<open>\<^verbatim>\<open>sdCardFatTable[fileClusterStart]\<close>: a 16-bit entry of the allocation table in main
  memory.\<close>

definition fat_entry :: "globals \<Rightarrow> machine \<Rightarrow> u16 \<Rightarrow> u16" where
  "fat_entry g m c = le16 (\<lambda>k. ram m (sdCardFatTable g + 2 * ucast c + of_nat k)) 0"

text \<open>\<^verbatim>\<open>1+((fileLength/sdCardFatBootSector.sectors_per_cluster)/sdCardFatBootSector.sector_size)\<close>,
  in unsigned 32-bit arithmetic.\<close>

definition cluster_count :: "globals \<Rightarrow> u32 \<Rightarrow> u32" where
  "cluster_count g fileLength =
     1 + (fileLength div ucast (sectors_per_cluster (sdCardFatBootSector g)))
           div ucast (sector_size (sdCardFatBootSector g))"

text \<open>\<^verbatim>\<open>clusterSectorStart=rootDirSectorStart+(fileClusterStart-1)*sectors_per_cluster\<close>\<close>

definition cluster_first_sector :: "globals \<Rightarrow> u16 \<Rightarrow> u32" where
  "cluster_first_sector g fileClusterStart =
     rootDirSectorStart g
       + (ucast fileClusterStart - 1) * ucast (sectors_per_cluster (sdCardFatBootSector g))"

text \<open>The loop over the clusters; its variables are
  \<open>(bytesRemaining, address, fileClusterStart)\<close> and the machine. The loop condition
  divides by the sectors per cluster and by the sector size: \<open>FAULT\<close> when one is zero.\<close>

function cluster_loop ::
  "globals \<Rightarrow> u32 \<Rightarrow> nat \<Rightarrow> u32 \<times> u32 \<times> u16 \<times> machine \<Rightarrow> ret \<times> machine" where
  "cluster_loop g fileLength i (bytesRemaining, address, fileClusterStart, m) =
     (if sectors_per_cluster (sdCardFatBootSector g) = 0 \<or> sector_size (sdCardFatBootSector g) = 0
      then (FAULT, m)
      else if i < unat (cluster_count g fileLength) then
        (case sector_loop g (cluster_first_sector g fileClusterStart) 0 (bytesRemaining, address, m) of
           (r, bytesRemaining', address', m') \<Rightarrow>
             if r \<noteq> SUCCESS then (r, m')
             else cluster_loop g fileLength (i + 1)
                    (bytesRemaining', address', fat_entry g m' fileClusterStart, m'))
      else (SUCCESS, m))"
  by pat_completeness auto
termination
  by (relation "measure (\<lambda>(g, fileLength, i, x). unat (cluster_count g fileLength) - i)") auto

declare cluster_loop.simps [simp del]

text \<open>
  \<^verbatim>\<open>spi_sdcard_readFile\<close>. The caller's strings are byte lists. \<open>fileLength\<close> is not
  initialised by the source; it is read only after a match has assigned it, and starts
  as 0 here. The result is \<open>None\<close> when the directory scan does not terminate.
\<close>

definition spi_sdcard_readFile ::
  "u8 list \<Rightarrow> u8 list \<Rightarrow> u32 \<Rightarrow> globals \<Rightarrow> machine \<Rightarrow> (ret \<times> machine) option" where
  "spi_sdcard_readFile filename ext address g m =
     (case dir_scan g m filename ext (0, 0, 0) of
        None \<Rightarrow> None
      | Some (fileClusterStart, fileLength, n) \<Rightarrow>
          if fileClusterStart = 0 then Some (FAILURE, m)
          else if fileLength = 0 then Some (SUCCESS, m)
          else Some (cluster_loop g fileLength 0 (fileLength, address, fileClusterStart, m)))"

section \<open>Properties of the command/response engine\<close>

lemma wait_done_eq: "wait_done s = s\<lparr>busy := 0\<rparr>"
proof (induction s rule: wait_done.induct)
  case (1 s)
  show ?case
  proof (cases "busy s = 0")
    case True
    then show ?thesis by (subst wait_done.simps) (simp add: spi_status_read_def)
  next
    case False
    then have "wait_done s = wait_done (s\<lparr>busy := busy s - 1\<rparr>)"
      by (subst wait_done.simps) (simp add: spi_status_read_def SPI_DONE_def)
    also have "\<dots> = (s\<lparr>busy := busy s - 1\<rparr>)\<lparr>busy := 0\<rparr>"
      using False by (intro "1.IH") (auto simp: spi_status_read_def SPI_DONE_def)
    finally show ?thesis by simp
  qed
qed

lemma spi_control_write_stop [simp]: "spi_control_write 0x00 s = s"
  by (simp add: spi_control_write_def)

lemma spi_write_byte_sel [simp]:
  "mosi (spi_write_byte c s) = c"
  "miso (spi_write_byte c s) = snd (card s (pos s))"
  "busy (spi_write_byte c s) = 0"
  "pos (spi_write_byte c s) = Suc (pos s)"
  "card (spi_write_byte c s) = card s"
  "trace (spi_write_byte c s) = trace s @ [Tx c]"
  by (simp_all add: spi_write_byte_def Let_def spi_mosi_write_def spi_control_write_def
      ONEBYTE_def SPI_START_def wait_done_eq)

lemma spi_read_byte_eq: "spi_read_byte s = (snd (card s (pos s)), spi_write_byte 0xff s)"
  by (simp add: spi_read_byte_def Let_def spi_miso_read_def)

lemma rbyte_loop_step:
  "rbyte_loop timeout r s =
     (if (r AND 0x80) \<noteq> 0 \<and> timeout > 0
      then rbyte_loop (timeout - 1) (snd (card s (pos s))) (spi_write_byte 0xff s)
      else (r, s))"
proof -
  have "wait_done (spi_control_write (ONEBYTE OR SPI_START) (spi_mosi_write 0xff s))
        = spi_write_byte 0xff s"
    by (simp add: spi_write_byte_def Let_def)
  then show ?thesis
    by (subst rbyte_loop.simps) (simp add: Let_def spi_miso_read_def)
qed

fun sample_from :: "u8 \<Rightarrow> spi \<Rightarrow> nat \<Rightarrow> u8" where
  "sample_from r s 0 = r"
| "sample_from r s (Suc j) = snd (card s (pos s + j))"

lemma sample_from_shift:
  "sample_from (snd (card s (pos s))) (spi_write_byte c s) k = sample_from r s (Suc k)"
  by (cases k) simp_all

lemma rbyte_loop_spec:
  "rbyte_loop t r s = (r', s') \<Longrightarrow>
   \<exists>k\<le>t. r' = sample_from r s k
      \<and> (\<forall>j<k. sample_from r s j AND 0x80 \<noteq> 0)
      \<and> (k < t \<longrightarrow> r' AND 0x80 = 0)
      \<and> pos s' = pos s + k \<and> card s' = card s \<and> trace s' = trace s @ replicate k (Tx 0xff)"
proof (induction t arbitrary: r s)
  case 0
  then show ?case by (subst (asm) rbyte_loop_step) auto
next
  case (Suc t)
  show ?case
  proof (cases "r AND 0x80 \<noteq> 0")
    case False
    with Suc.prems have "r' = r" "s' = s" by (subst (asm) rbyte_loop_step, simp)+
    with False show ?thesis by (intro exI[of _ 0]) simp
  next
    case True
    with Suc.prems have "rbyte_loop t (snd (card s (pos s))) (spi_write_byte 0xff s) = (r', s')"
      by (subst (asm) rbyte_loop_step) simp
    from Suc.IH[OF this] obtain k where k: "k \<le> t"
      "r' = sample_from r s (Suc k)"
      "\<forall>j<k. sample_from r s (Suc j) AND 0x80 \<noteq> 0"
      "k < t \<longrightarrow> r' AND 0x80 = 0"
      "pos s' = Suc (pos s) + k" "card s' = card s"
      "trace s' = (trace s @ [Tx 0xff]) @ replicate k (Tx 0xff)"
      unfolding sample_from_shift[where r = r] by auto
    have "\<forall>j<Suc k. sample_from r s j AND 0x80 \<noteq> 0"
    proof (intro allI impI)
      fix j assume "j < Suc k"
      with k(3) True show "sample_from r s j AND 0x80 \<noteq> 0"
        by (cases j) auto
    qed
    with k show ?thesis
      by (intro exI[of _ "Suc k"]) (auto simp: replicate_append_same)
  qed
qed


lemma token_loop_step:
  "token_loop timeout r s =
     (if r \<noteq> 0xfe \<and> timeout > 0
      then token_loop (timeout - 1) (snd (card s (pos s))) (spi_write_byte 0xff s)
      else (r, s))"
  by (subst token_loop.simps) (simp add: spi_read_byte_eq)

lemma token_loop_spec:
  "token_loop t r s = (r', s') \<Longrightarrow>
   \<exists>k\<le>t. r' = sample_from r s k
      \<and> (\<forall>j<k. sample_from r s j \<noteq> 0xfe)
      \<and> (k < t \<longrightarrow> r' = 0xfe)
      \<and> pos s' = pos s + k \<and> card s' = card s \<and> trace s' = trace s @ replicate k (Tx 0xff)"
proof (induction t arbitrary: r s)
  case 0
  then show ?case by (subst (asm) token_loop_step) auto
next
  case (Suc t)
  show ?case
  proof (cases "r \<noteq> 0xfe")
    case False
    with Suc.prems have "r' = r" "s' = s" by (subst (asm) token_loop_step, simp)+
    with False show ?thesis by (intro exI[of _ 0]) simp
  next
    case True
    with Suc.prems have "token_loop t (snd (card s (pos s))) (spi_write_byte 0xff s) = (r', s')"
      by (subst (asm) token_loop_step) simp
    from Suc.IH[OF this] obtain k where k: "k \<le> t"
      "r' = sample_from r s (Suc k)"
      "\<forall>j<k. sample_from r s (Suc j) \<noteq> 0xfe"
      "k < t \<longrightarrow> r' = 0xfe"
      "pos s' = Suc (pos s) + k" "card s' = card s"
      "trace s' = (trace s @ [Tx 0xff]) @ replicate k (Tx 0xff)"
      unfolding sample_from_shift[where r = r] by auto
    have "\<forall>j<Suc k. sample_from r s j \<noteq> 0xfe"
    proof (intro allI impI)
      fix j assume "j < Suc k"
      with k(3) True show "sample_from r s j \<noteq> 0xfe"
        by (cases j) auto
    qed
    with k show ?thesis
      by (intro exI[of _ "Suc k"]) (auto simp: replicate_append_same)
  qed
qed

lemma fillers_sel [simp]:
  "pos ((spi_write_byte c ^^ k) s) = pos s + k"
  "card ((spi_write_byte c ^^ k) s) = card s"
  "trace ((spi_write_byte c ^^ k) s) = trace s @ replicate k (Tx c)"
  by (induction k) (simp_all add: replicate_append_same)

lemma dummy_loop_eq: "dummy_loop n s = (spi_write_byte 0xff ^^ (8 - n)) s"
proof (induction n s rule: dummy_loop.induct)
  case (1 n s)
  show ?case
  proof (cases "n < 8")
    case True
    then have "8 - n = Suc (8 - (n + 1))" by simp
    from True "1.IH" have "dummy_loop n s = (spi_write_byte 0xff ^^ (8 - (n + 1))) (spi_write_byte 0xff s)"
      by (subst dummy_loop.simps) (simp add: spi_read_byte_eq)
    also have "\<dots> = (spi_write_byte 0xff ^^ Suc (8 - (n + 1))) s"
      by (simp add: funpow_swap1)
    finally show ?thesis by (simp only: \<open>8 - n = Suc (8 - (n + 1))\<close>)
  next
    case False
    then show ?thesis by (subst dummy_loop.simps) simp
  qed
qed

lemma filler_loop_eq: "filler_loop i s = (spi_write_byte 0xff ^^ (10 - i)) s"
proof (induction i s rule: filler_loop.induct)
  case (1 i s)
  show ?case
  proof (cases "i < 10")
    case True
    then have "10 - i = Suc (10 - (i + 1))" by simp
    from True "1.IH" have "filler_loop i s = (spi_write_byte 0xff ^^ (10 - (i + 1))) (spi_write_byte 0xff s)"
      by (subst filler_loop.simps) simp
    also have "\<dots> = (spi_write_byte 0xff ^^ Suc (10 - (i + 1))) s"
      by (simp add: funpow_swap1)
    finally show ?thesis by (simp only: \<open>10 - i = Suc (10 - (i + 1))\<close>)
  next
    case False
    then show ?thesis by (subst filler_loop.simps) simp
  qed
qed

subsection \<open>Sample states\<close>

text \<open>A card that is slow to finish each transfer and answers on the third filler byte, and an
  idle SPI core attached to a given card.\<close>

definition slow_card :: "nat \<Rightarrow> nat \<times> u8" where
  "slow_card n = (n mod 3, if n < 2 then 0xff else 0x01)"

definition spi0 :: "(nat \<Rightarrow> nat \<times> u8) \<Rightarrow> spi" where
  "spi0 c = \<lparr>mosi = 0, miso = 0xff, busy = 0, pos = 0, card = c, trace = []\<rparr>"

lemma spi0_sel [simp]:
  "mosi (spi0 c) = 0" "miso (spi0 c) = 0xff" "busy (spi0 c) = 0" "pos (spi0 c) = 0"
  "card (spi0 c) = c" "trace (spi0 c) = []"
  by (simp_all add: spi0_def)

subsection \<open>Reading a response byte\<close>

text \<open>
  Claim C9. \<open>spi_read_rbyte\<close> looks at the byte already in the MISO register and, while the
  byte it looked at last has its high bit set, sends a filler byte \<open>0xff\<close> and looks at
  the byte shifted in, at most 32 times. With \<open>sample_from (miso s) s k\<close> the \<open>k\<close>-th byte
  looked at (\<open>k = 0\<close> is the register, \<open>k > 0\<close> the byte of the \<open>k\<close>-th filler transfer),
  the result is the sample at some \<open>k \<le> 32\<close> such that every earlier sample has its
  high bit set and, unless \<open>k = 32\<close>, the result has its high bit clear: the first valid
  sample, or the last sample after 32 fillers. Exactly \<open>k\<close> filler bytes were sent. The
  result is only the byte: nothing tells the caller whether the 32 attempts ran out.
\<close>

theorem spi_read_rbyte_first_valid:
  assumes "spi_read_rbyte s = (r, s')"
  shows "\<exists>k\<le>32. r = sample_from (miso s) s k
           \<and> (\<forall>j<k. sample_from (miso s) s j AND 0x80 \<noteq> 0)
           \<and> (k < 32 \<longrightarrow> r AND 0x80 = 0)
           \<and> pos s' = pos s + k \<and> card s' = card s
           \<and> trace s' = trace s @ replicate k (Tx 0xff)"
  using assms by (simp add: spi_read_rbyte_def spi_miso_read_def rbyte_loop_spec)

definition spi3 :: spi where
  "spi3 = spi_write_byte 0xff (spi_write_byte 0xff (spi_write_byte 0xff (spi0 slow_card)))"

theorem spi_read_rbyte_first_valid_witness:
  "spi_read_rbyte (spi0 slow_card) = (0x01, spi3)
   \<and> (\<exists>k\<le>32. (0x01::u8) = sample_from (miso (spi0 slow_card)) (spi0 slow_card) k
           \<and> (\<forall>j<k. sample_from (miso (spi0 slow_card)) (spi0 slow_card) j AND 0x80 \<noteq> 0)
           \<and> (k < 32 \<longrightarrow> (0x01::u8) AND 0x80 = 0)
           \<and> pos spi3 = pos (spi0 slow_card) + k
           \<and> card spi3 = card (spi0 slow_card)
           \<and> trace spi3 = trace (spi0 slow_card) @ replicate k (Tx 0xff))"
proof -
  have run: "spi_read_rbyte (spi0 slow_card) = (0x01, spi3)"
    by (simp add: spi_read_rbyte_def spi_miso_read_def rbyte_loop_step slow_card_def spi3_def)
  from run spi_read_rbyte_first_valid[OF run] show ?thesis by (rule conjI)
qed

subsection \<open>The mode switch\<close>

lemma miso_fillers: "miso ((spi_write_byte c ^^ Suc k) s) = snd (card s (pos s + k))"
  by simp

lemma spi_cs_write_sel [simp]:
  "mosi (spi_cs_write v s) = mosi s"
  "miso (spi_cs_write v s) = miso s"
  "busy (spi_cs_write v s) = busy s"
  "pos (spi_cs_write v s) = pos s"
  "card (spi_cs_write v s) = card s"
  "trace (spi_cs_write v s) = trace s @ [Cs v]"
  by (simp_all add: spi_cs_write_def)

text \<open>One mode-switch cycle up to the point where the response is read.\<close>

definition mode_switch_cycle :: "spi \<Rightarrow> spi" where
  "mode_switch_cycle s = spi_cs_write CS_LOW ((spi_write_byte 0xff ^^ 10) (spi_cs_write CS_HIGH s))"

lemma mode_switch_cycle_sel [simp]:
  "pos (mode_switch_cycle s) = pos s + 10"
  "card (mode_switch_cycle s) = card s"
  "miso (mode_switch_cycle s) = snd (card s (pos s + 9))"
  "trace (mode_switch_cycle s) = trace s @ Cs CS_HIGH # replicate 10 (Tx 0xff) @ [Cs CS_LOW]"
proof -
  have "miso ((spi_write_byte 0xff ^^ Suc 9) (spi_cs_write CS_HIGH s)) = snd (card s (pos s + 9))"
    by (subst miso_fillers) simp
  then show "miso (mode_switch_cycle s) = snd (card s (pos s + 9))"
    by (simp add: mode_switch_cycle_def del: funpow.simps)
qed (simp_all add: mode_switch_cycle_def del: funpow.simps)

lemma setspimode_loop_step:
  "setspimode_loop t s =
     (case spi_read_rbyte (mode_switch_cycle s) of
        (r, s4) \<Rightarrow> if t - 1 > 0 \<and> r = 0 then setspimode_loop (t - 1) s4 else (t - 1, r, s4))"
  by (subst setspimode_loop.simps)
     (simp add: Let_def filler_loop_eq mode_switch_cycle_def split: prod.split del: funpow.simps)

lemma spi_read_rbyte_valid:
  "miso s AND 0x80 = 0 \<Longrightarrow> spi_read_rbyte s = (miso s, s)"
  by (simp add: spi_read_rbyte_def spi_miso_read_def rbyte_loop_step)

lemma cycles_sel [simp]:
  "pos ((mode_switch_cycle ^^ k) s) = pos s + 10 * k"
  "card ((mode_switch_cycle ^^ k) s) = card s"
  by (induction k) simp_all

lemma setspimode_loop_quiet:
  "\<forall>j<k. snd (card s (pos s + 10 * j + 9)) = 0 \<Longrightarrow> k < t \<Longrightarrow>
   setspimode_loop t s = setspimode_loop (t - k) ((mode_switch_cycle ^^ k) s)"
proof (induction k)
  case 0
  then show ?case by simp
next
  case (Suc k)
  then have "setspimode_loop t s = setspimode_loop (t - k) ((mode_switch_cycle ^^ k) s)"
    by simp
  also have "\<dots> = setspimode_loop (t - k - 1) (mode_switch_cycle ((mode_switch_cycle ^^ k) s))"
    using Suc.prems by (subst setspimode_loop_step) (simp add: spi_read_rbyte_valid)
  finally show ?case by simp
qed

text \<open>A card that gives no response (\<open>0x00\<close>) during the first 31 mode-switch cycles, which
  take 10 transfers each, and answers \<open>0x01\<close> from the 32nd cycle on.\<close>

definition late_card :: "nat \<Rightarrow> nat \<times> u8" where
  "late_card n = (0, if n < 310 then 0x00 else 0x01)"

text \<open>
  Claim C10 says that \<open>spi_setspimode\<close> returns success whenever a nonzero response is
  obtained within the 32 attempts. On the card \<open>late_card\<close> the response \<open>0x01\<close> is
  obtained in the 32nd cycle: the loop ends with that response and with \<open>timeout = 0\<close>,
  and because the function tests \<open>timeout\<close> instead of the response it returns
  \<open>FAILURE\<close>.
\<close>

theorem spi_setspimode_last_attempt:
  "setspimode_loop 32 (spi0 late_card) = (0, 0x01, (mode_switch_cycle ^^ 32) (spi0 late_card))
   \<and> spi_setspimode (spi0 late_card) = (FAILURE, (mode_switch_cycle ^^ 32) (spi0 late_card))"
proof -
  have "\<forall>j<31. snd (card (spi0 late_card) (pos (spi0 late_card) + 10 * j + 9)) = 0"
    by (simp add: late_card_def)
  then have "setspimode_loop 32 (spi0 late_card)
      = setspimode_loop (32 - 31) ((mode_switch_cycle ^^ 31) (spi0 late_card))"
    by (rule setspimode_loop_quiet) simp
  also have "\<dots> = (0, 0x01, mode_switch_cycle ((mode_switch_cycle ^^ 31) (spi0 late_card)))"
    by (subst setspimode_loop_step) (simp add: spi_read_rbyte_valid late_card_def)
  also have "mode_switch_cycle ((mode_switch_cycle ^^ 31) (spi0 late_card))
      = (mode_switch_cycle ^^ 32) (spi0 late_card)"
  proof -
    have e: "(32::nat) = Suc 31" by simp
    show ?thesis by (subst e) (simp only: funpow.simps o_apply)
  qed
  finally have loop: "setspimode_loop 32 (spi0 late_card)
      = (0, 0x01, (mode_switch_cycle ^^ 32) (spi0 late_card))"
    by simp
  then show ?thesis by (simp add: spi_setspimode_def)
qed

section \<open>Properties of the sector reader\<close>

lemma data_loop_step:
  "data_loop n p m =
     (if n < 512
      then data_loop (Suc n) p
             (store_byte p n (snd (card (bus m) (pos (bus m)))) (m\<lparr>bus := spi_write_byte 0xff (bus m)\<rparr>))
      else m)"
  by (subst data_loop.simps) (simp add: spi_read_byte_eq)

lemma store_byte_sel [simp]:
  "bus (store_byte p n v m) = bus m"
  "sd_reads (store_byte p n v m) = sd_reads m"
  "ram (store_byte Scratch n v m) = ram m"
  "sdCardSector (store_byte Scratch n v m) = (sdCardSector m)(n := v)"
  "ram (store_byte (Ram a) n v m) = (ram m)(a + of_nat n := v)"
  "sdCardSector (store_byte (Ram a) n v m) = sdCardSector m"
  by (cases p; simp)+

lemma data_loop_bus:
  "bus (data_loop n p m) = (spi_write_byte 0xff ^^ (512 - n)) (bus m)"
proof (induction n p m rule: data_loop.induct)
  case (1 n p m)
  show ?case
  proof (cases "n < 512")
    case True
    then have e: "512 - n = Suc (512 - Suc n)" by simp
    from True "1.IH"[OF True spi_read_byte_eq[symmetric]]
    have "bus (data_loop n p m) = (spi_write_byte 0xff ^^ (512 - Suc n)) (spi_write_byte 0xff (bus m))"
      by (subst data_loop_step) simp
    also have "\<dots> = (spi_write_byte 0xff ^^ Suc (512 - Suc n)) (bus m)"
      by (simp add: funpow_swap1)
    finally show ?thesis by (simp only: e)
  next
    case False
    then show ?thesis by (subst data_loop_step) simp
  qed
qed

lemma data_loop_reads: "sd_reads (data_loop n p m) = sd_reads m"
proof (induction n p m rule: data_loop.induct)
  case (1 n p m)
  show ?case
  proof (cases "n < 512")
    case True
    with "1.IH"[OF True spi_read_byte_eq[symmetric]] show ?thesis
      by (subst data_loop_step) simp
  next
    case False
    then show ?thesis by (subst data_loop_step) simp
  qed
qed

lemma data_loop_scratch:
  "ram (data_loop n Scratch m) = ram m"
  "sdCardSector (data_loop n Scratch m) k =
     (if n \<le> k \<and> k < 512 then snd (card (bus m) (pos (bus m) + (k - n))) else sdCardSector m k)"
proof (induction n "Scratch" m rule: data_loop.induct)
  case (1 n m)
  {
    case 1
    show ?case
    proof (cases "n < 512")
      case True
      with "1.hyps"(1)[OF True spi_read_byte_eq[symmetric]] show ?thesis
        by (subst data_loop_step) simp
    next
      case False
      then show ?thesis by (subst data_loop_step) simp
    qed
  next
    case 2
    show ?case
    proof (cases "n < 512")
      case True
      have "sdCardSector (data_loop n Scratch m) k
          = sdCardSector (data_loop (Suc n) Scratch
               (store_byte Scratch n (snd (card (bus m) (pos (bus m)))) (m\<lparr>bus := spi_write_byte 0xff (bus m)\<rparr>))) k"
        using True by (subst data_loop_step) simp
      also have "\<dots> = (if Suc n \<le> k \<and> k < 512
            then snd (card (bus m) (Suc (pos (bus m)) + (k - Suc n)))
            else ((sdCardSector m)(n := snd (card (bus m) (pos (bus m))))) k)"
        using "1.hyps"(2)[OF True spi_read_byte_eq[symmetric]] True by simp
      also have "\<dots> = (if n \<le> k \<and> k < 512 then snd (card (bus m) (pos (bus m) + (k - n))) else sdCardSector m k)"
        using True by (cases "k = n") (auto simp: Suc_diff_Suc)
      finally show ?thesis .
    next
      case False
      then show ?thesis by (subst data_loop_step) auto
    qed
  }
qed

lemma data_loop_ram:
  "sdCardSector (data_loop n (Ram a) m) = sdCardSector m"
  "ram (data_loop n (Ram a) m) =
     store_bytes (a + of_nat n) (map (\<lambda>j. snd (card (bus m) (pos (bus m) + j))) [0..<512 - n]) (ram m)"
proof (induction n "Ram a" m rule: data_loop.induct)
  case (1 n m)
  {
    case 1
    show ?case
    proof (cases "n < 512")
      case True
      with "1.hyps"(1)[OF True spi_read_byte_eq[symmetric]] show ?thesis
        by (subst data_loop_step) simp
    next
      case False
      then show ?thesis by (subst data_loop_step) simp
    qed
  next
    case 2
    show ?case
    proof (cases "n < 512")
      case True
      then have "512 - n = Suc (512 - Suc n)" by simp
      then have e: "[0..<512 - n] = 0 # map Suc [0..<512 - Suc n]"
        by (simp only: upt_conv_Cons[OF zero_less_Suc] map_Suc_upt)
      have "ram (data_loop n (Ram a) m)
          = ram (data_loop (Suc n) (Ram a)
               (store_byte (Ram a) n (snd (card (bus m) (pos (bus m)))) (m\<lparr>bus := spi_write_byte 0xff (bus m)\<rparr>)))"
        using True by (subst data_loop_step) simp
      also have "\<dots> = store_bytes (a + of_nat (Suc n))
            (map (\<lambda>j. snd (card (bus m) (Suc (pos (bus m)) + j))) [0..<512 - Suc n])
            ((ram m)(a + of_nat n := snd (card (bus m) (pos (bus m)))))"
        using "1.hyps"(2)[OF True spi_read_byte_eq[symmetric]] True by simp
      also have "\<dots> = store_bytes (a + of_nat n)
            (map (\<lambda>j. snd (card (bus m) (pos (bus m) + j))) [0..<512 - n]) (ram m)"
        by (simp add: e comp_def ac_simps del: upt_Suc)
      finally show ?thesis .
    next
      case False
      then show ?thesis by (subst data_loop_step) simp
    qed
  }
qed



lemma store_bytes_value:
  "length bs \<le> 2 ^ 32 \<Longrightarrow>
   store_bytes a bs mem x = (if unat (x - a) < length bs then bs ! unat (x - a) else mem x)"
proof (induction bs arbitrary: a mem)
  case Nil
  then show ?case by simp
next
  case (Cons b bs)
  then have len: "length bs < 2 ^ 32" by simp
  have IH: "store_bytes (a + 1) bs (mem(a := b)) x =
      (if unat (x - (a + 1)) < length bs then bs ! unat (x - (a + 1)) else (mem(a := b)) x)"
    using len by (intro Cons.IH) simp
  show ?case
  proof (cases "x = a")
    case True
    have "unat (x - (a + 1)) = 2 ^ 32 - 1"
      using True by (simp add: unsigned_minus_1_eq_mask mask_eq_exp_minus_1)
    with len True IH show ?thesis by simp
  next
    case False
    then have nz: "x - a \<noteq> 0" by simp
    have "x - (a + 1) = x - a - 1" by simp
    then have "unat (x - (a + 1)) = unat (x - a) - 1"
      by (simp only: unat_minus_one[OF nz])
    moreover have "unat (x - a) \<noteq> 0" using nz by (simp add: unsigned_eq_0_iff)
    ultimately show ?thesis using IH False
      by (cases "unat (x - a)") auto
  qed
qed

lemma store_bytes_append:
  "store_bytes a (xs @ ys) mem = store_bytes (a + of_nat (length xs)) ys (store_bytes a xs mem)"
  by (induction xs arbitrary: a mem) (simp_all add: ac_simps)


text \<open>The byte the card shifts out during transfer \<open>n\<close>.\<close>

definition rx :: "machine \<Rightarrow> nat \<Rightarrow> u8" where
  "rx m n = snd (card (bus m) n)"

text \<open>\<open>block_stored p d m m'\<close>: memory in \<open>m'\<close> is memory in \<open>m\<close> with the bytes \<open>d\<close> written
  to \<open>p[0]\<close>, \<open>p[1]\<close>, ... and nothing else changed.\<close>

fun block_stored :: "storage \<Rightarrow> u8 list \<Rightarrow> machine \<Rightarrow> machine \<Rightarrow> bool" where
  "block_stored (Ram a) d m m' =
     (ram m' = store_bytes a d (ram m) \<and> sdCardSector m' = sdCardSector m)"
| "block_stored Scratch d m m' =
     (ram m' = ram m \<and> sdCardSector m' = (\<lambda>k. if k < 512 then d ! k else sdCardSector m k))"

lemma sample_from_abs:
  "pos s = Suc q \<Longrightarrow> sample_from (snd (card s q)) s k = snd (card s (q + k))"
  by (cases k) simp_all

lemma nth_map_512: "k < 512 \<Longrightarrow> map f [0..<512] ! k = f k"
  by (simp del: upt_Suc)

lemma data_loop_block:
  "block_stored p (map (\<lambda>n. snd (card (bus m) (pos (bus m) + n))) [0..<512]) m (data_loop 0 p m)"
proof (cases p)
  case (Ram a)
  then show ?thesis by (simp add: data_loop_ram del: upt_Suc)
next
  case Scratch
  have "sdCardSector (data_loop 0 Scratch m) k =
      (if k < 512 then map (\<lambda>n. snd (card (bus m) (pos (bus m) + n))) [0..<512] ! k
       else sdCardSector m k)" for k
    by (cases "k < 512") (simp_all only: data_loop_scratch(2) nth_map_512 if_True if_False
        le0 simp_thms diff_zero)
  then have "sdCardSector (data_loop 0 Scratch m) =
      (\<lambda>k. if k < 512 then map (\<lambda>n. snd (card (bus m) (pos (bus m) + n))) [0..<512] ! k
           else sdCardSector m k)"
    by (rule ext)
  moreover have "ram (data_loop 0 Scratch m) = ram m"
    by (rule data_loop_scratch(1))
  ultimately show ?thesis
    unfolding Scratch block_stored.simps by (rule conjI[rotated])
qed

lemma block_stored_load:
  assumes "block_stored p d m m'" "length d = 512" "n < 512"
  shows "load_byte p n m' = d ! n"
proof (cases p)
  case (Ram a)
  have "unat (of_nat n :: u32) = n"
    using assms(3) by (simp add: unat_of_nat)
  with assms Ram show ?thesis by (simp add: store_bytes_value)
next
  case Scratch
  with assms show ?thesis by simp
qed

lemma block_stored_bus1 [simp]:
  "block_stored p d m (m'\<lparr>bus := b\<rparr>) = block_stored p d m m'"
  by (cases p) simp_all

lemma block_stored_bus2 [simp]:
  "block_stored p d (m\<lparr>bus := b\<rparr>) m' = block_stored p d m m'"
  by (cases p) (simp_all cong: if_cong)

lemma block_stored_reads [simp]:
  "block_stored p d m (m'\<lparr>sd_reads := l\<rparr>) = block_stored p d m m'"
  by (cases p) simp_all

lemma load_byte_bus [simp]:
  "load_byte p n (m\<lparr>bus := b\<rparr>) = load_byte p n m"
  by (cases p) simp_all

lemma load_byte_reads [simp]:
  "load_byte p n (m\<lparr>sd_reads := l\<rparr>) = load_byte p n m"
  by (cases p) simp_all

lemma readSector_run:
  assumes run: "readSector sec p m = (r, m')"
  shows "\<exists>k1 k2. k1 \<le> 32 \<and> k2 \<le> 16384 \<and>
     (\<forall>j<k1. rx m (pos (bus m) + 6 + j) AND 0x80 \<noteq> 0) \<and>
     (k1 < 32 \<longrightarrow> rx m (pos (bus m) + 6 + k1) AND 0x80 = 0) \<and>
     card (bus m') = card (bus m) \<and>
     trace (bus m') = trace (bus m) @ map Tx (cmd17 sec)
                        @ replicate (pos (bus m') - (pos (bus m) + 7)) (Tx 0xff) \<and>
     (if rx m (pos (bus m) + 6 + k1) \<noteq> 0
      then r = FAILURE \<and> pos (bus m') = pos (bus m) + 7 + k1 \<and> ram m' = ram m \<and>
           sdCardSector m' = sdCardSector m \<and> sd_reads m' = sd_reads m
      else (\<forall>j<k2. rx m (pos (bus m) + 7 + k1 + j) \<noteq> 0xfe) \<and>
        (if rx m (pos (bus m) + 7 + k1 + k2) \<noteq> 0xfe
         then k2 = 16384 \<and> r = FAILURE \<and> pos (bus m') = pos (bus m) + 8 + k1 + k2 \<and>
              ram m' = ram m \<and> sdCardSector m' = sdCardSector m \<and> sd_reads m' = sd_reads m
         else r = SUCCESS \<and> pos (bus m') = pos (bus m) + 528 + k1 + k2 \<and>
              block_stored p (map (\<lambda>n. rx m (pos (bus m) + 8 + k1 + k2 + n)) [0..<512]) m m' \<and>
              sd_reads m' = sd_reads m @
                [(sec, p, map (\<lambda>n. rx m (pos (bus m) + 8 + k1 + k2 + n)) [0..<512])]))"
proof -
  define p0 where "p0 = pos (bus m)"
  define c where "c = card (bus m)"
  define s7 where "s7 =
    spi_write_byte 0xff (spi_write_byte (ucast (sec AND 0xff))
      (spi_write_byte (ucast (drop_bit 8 sec AND 0xff)) (spi_write_byte (ucast (drop_bit 16 sec AND 0xff))
        (spi_write_byte (ucast (drop_bit 24 sec AND 0xff)) (spi_write_byte 0x51
          (spi_write_byte 0xff (bus m)))))))"
  have six: "pos (bus m) + 6 = Suc (Suc (Suc (Suc (Suc (Suc (pos (bus m)))))))" by simp
  have s7: "pos s7 = Suc (p0 + 6)" "card s7 = c" "miso s7 = snd (c (p0 + 6))"
    "trace s7 = trace (bus m) @ map Tx (cmd17 sec)"
    by (simp_all add: s7_def p0_def c_def cmd17_def six)
  have sf7: "sample_from (snd (c (p0 + 6))) s7 k = snd (c (p0 + 6 + k))" for k
    using sample_from_abs[OF s7(1)] by (simp add: s7)
  obtain r0 s8 where rb: "spi_read_rbyte s7 = (r0, s8)" by force
  then have "rbyte_loop 32 (snd (card s7 (p0 + 6))) s7 = (r0, s8)"
    by (simp add: spi_read_rbyte_def spi_miso_read_def s7)
  from rbyte_loop_spec[OF this] obtain k1 where k1raw: "k1 \<le> 32"
    "r0 = sample_from (snd (card s7 (p0 + 6))) s7 k1"
    "\<forall>j<k1. sample_from (snd (card s7 (p0 + 6))) s7 j AND 0x80 \<noteq> 0"
    "k1 < 32 \<longrightarrow> r0 AND 0x80 = 0"
    "pos s8 = pos s7 + k1" "card s8 = card s7"
    "trace s8 = trace s7 @ replicate k1 (Tx 0xff)"
    by blast
  have k1: "k1 \<le> 32"
    "r0 = snd (c (p0 + 6 + k1))"
    "\<forall>j<k1. snd (c (p0 + 6 + j)) AND 0x80 \<noteq> 0"
    "k1 < 32 \<longrightarrow> r0 AND 0x80 = 0"
    "pos s8 = p0 + 7 + k1" "card s8 = c"
    "trace s8 = trace (bus m) @ map Tx (cmd17 sec) @ replicate k1 (Tx 0xff)"
    using k1raw by (simp_all add: sf7 s7)
  define s9 where "s9 = spi_write_byte 0xff s8"
  have s9: "pos s9 = Suc (p0 + 7 + k1)" "card s9 = c"
    "trace s9 = trace (bus m) @ map Tx (cmd17 sec) @ replicate (Suc k1) (Tx 0xff)"
    by (simp_all add: s9_def k1 replicate_append_same)
  have sf9: "sample_from (snd (c (p0 + 7 + k1))) s9 k = snd (c (p0 + 7 + k1 + k))" for k
    using sample_from_abs[OF s9(1)] by (simp add: s9)
  obtain r2 s10 where tl: "token_loop 16384 (snd (c (p0 + 7 + k1))) s9 = (r2, s10)" by force
  from token_loop_spec[OF this] obtain k2 where k2raw: "k2 \<le> 16384"
    "r2 = sample_from (snd (c (p0 + 7 + k1))) s9 k2"
    "\<forall>j<k2. sample_from (snd (c (p0 + 7 + k1))) s9 j \<noteq> 0xfe"
    "k2 < 16384 \<longrightarrow> r2 = 0xfe"
    "pos s10 = pos s9 + k2" "card s10 = card s9"
    "trace s10 = trace s9 @ replicate k2 (Tx 0xff)"
    by blast
  have k2: "k2 \<le> 16384"
    "r2 = snd (c (p0 + 7 + k1 + k2))"
    "\<forall>j<k2. snd (c (p0 + 7 + k1 + j)) \<noteq> 0xfe"
    "k2 < 16384 \<longrightarrow> r2 = 0xfe"
    "pos s10 = p0 + 8 + k1 + k2" "card s10 = c"
    "trace s10 = trace (bus m) @ map Tx (cmd17 sec) @ replicate (Suc k1 + k2) (Tx 0xff)"
    using k2raw by (simp_all add: sf9 s9 replicate_add)
  define m1 where "m1 = data_loop 0 p (m\<lparr>bus := s10\<rparr>)"
  define m2 where "m2 = m1\<lparr>bus := dummy_loop 0 (bus m1)\<rparr>"
  define d where "d = map (\<lambda>n. snd (c (p0 + 8 + k1 + k2 + n))) [0..<512]"
  have unfolded: "readSector sec p m =
      (if r0 \<noteq> 0 then (FAILURE, m\<lparr>bus := s8\<rparr>)
       else if r2 \<noteq> 0xfe then (FAILURE, m\<lparr>bus := s10\<rparr>)
       else (SUCCESS, m2\<lparr>sd_reads := sd_reads m2 @ [(sec, p, map (\<lambda>n. load_byte p n m2) [0..<512])]\<rparr>))"
    using rb tl
    by (simp add: readSector_def Let_def s7_def[symmetric] spi_read_byte_eq s9_def[symmetric]
        k1(5,6) m1_def m2_def del: upt_Suc)
  have stored: "block_stored p d m m1"
    using data_loop_block[of p "m\<lparr>bus := s10\<rparr>"]
    by (simp add: m1_def d_def k2 del: upt_Suc)
  have m2_bus: "pos (bus m2) = p0 + 528 + k1 + k2" "card (bus m2) = c"
    "trace (bus m2) = trace (bus m) @ map Tx (cmd17 sec) @ replicate (521 + k1 + k2) (Tx 0xff)"
    by (simp_all add: m2_def m1_def data_loop_bus dummy_loop_eq k2 replicate_add[symmetric]
        del: replicate_Suc replicate_add)
  have m2_reads: "sd_reads m2 = sd_reads m"
    by (simp add: m2_def m1_def data_loop_reads)
  have len: "length d = 512" by (simp add: d_def)
  have loaded: "map (\<lambda>n. load_byte p n m2) [0..<512] = d"
  proof (rule nth_equalityI)
    show "length (map (\<lambda>n. load_byte p n m2) [0..<512]) = length d" by (simp add: len)
  next
    fix i assume "i < length (map (\<lambda>n. load_byte p n m2) [0..<512])"
    then have i: "i < 512" by simp
    then show "map (\<lambda>n. load_byte p n m2) [0..<512] ! i = d ! i"
      using block_stored_load[OF stored len i] by (simp add: m2_def del: upt_Suc)
  qed
  show ?thesis
  proof (cases "r0 \<noteq> 0")
    case True
    with run unfolded have "r = FAILURE" "m' = m\<lparr>bus := s8\<rparr>" by simp_all
    with True k1 show ?thesis
      by (intro exI[of _ k1] exI[of _ 0]) (simp add: rx_def p0_def[symmetric] c_def[symmetric])
  next
    case False
    note r0 = this
    show ?thesis
    proof (cases "r2 \<noteq> 0xfe")
      case True
      with r0 run unfolded have "r = FAILURE" "m' = m\<lparr>bus := s10\<rparr>" by simp_all
      moreover from True k2 have "k2 = 16384" by auto
      ultimately show ?thesis using r0 True k1 k2
        by (intro exI[of _ k1] exI[of _ k2]) (simp add: rx_def p0_def[symmetric] c_def[symmetric])
    next
      case False
      with r0 run unfolded have res: "r = SUCCESS"
        "m' = m2\<lparr>sd_reads := sd_reads m2 @ [(sec, p, map (\<lambda>n. load_byte p n m2) [0..<512])]\<rparr>"
        by simp_all
      have "block_stored p d m m'"
        using stored by (simp add: res m2_def)
      with res r0 False k1 k2 m2_bus m2_reads loaded show ?thesis
        by (intro exI[of _ k1] exI[of _ k2])
           (simp add: rx_def p0_def[symmetric] c_def[symmetric] d_def del: upt_Suc)
    qed
  qed
qed

lemma readSector_token_at:
  assumes resp: "rx m (pos (bus m) + 6) = 0"
    and before: "\<forall>j<k. rx m (pos (bus m) + 7 + j) \<noteq> 0xfe"
    and token: "rx m (pos (bus m) + 7 + k) = 0xfe"
    and bound: "k \<le> 16384"
  shows "fst (readSector sec p m) = SUCCESS"
    and "pos (bus (snd (readSector sec p m))) = pos (bus m) + 528 + k"
    and "card (bus (snd (readSector sec p m))) = card (bus m)"
    and "block_stored p (map (\<lambda>n. rx m (pos (bus m) + 8 + k + n)) [0..<512]) m (snd (readSector sec p m))"
    and "sd_reads (snd (readSector sec p m)) = sd_reads m @
           [(sec, p, map (\<lambda>n. rx m (pos (bus m) + 8 + k + n)) [0..<512])]"
proof -
  obtain r m' where run: "readSector sec p m = (r, m')" by force
  from readSector_run[OF run] obtain k1 k2 where
    k: "k1 \<le> 32" "k2 \<le> 16384"
      "\<forall>j<k1. rx m (pos (bus m) + 6 + j) AND 0x80 \<noteq> 0"
    and c: "card (bus m') = card (bus m)"
    and rest: "if rx m (pos (bus m) + 6 + k1) \<noteq> 0
      then r = FAILURE \<and> pos (bus m') = pos (bus m) + 7 + k1 \<and> ram m' = ram m \<and>
           sdCardSector m' = sdCardSector m \<and> sd_reads m' = sd_reads m
      else (\<forall>j<k2. rx m (pos (bus m) + 7 + k1 + j) \<noteq> 0xfe) \<and>
        (if rx m (pos (bus m) + 7 + k1 + k2) \<noteq> 0xfe
         then k2 = 16384 \<and> r = FAILURE \<and> pos (bus m') = pos (bus m) + 8 + k1 + k2 \<and>
              ram m' = ram m \<and> sdCardSector m' = sdCardSector m \<and> sd_reads m' = sd_reads m
         else r = SUCCESS \<and> pos (bus m') = pos (bus m) + 528 + k1 + k2 \<and>
              block_stored p (map (\<lambda>n. rx m (pos (bus m) + 8 + k1 + k2 + n)) [0..<512]) m m' \<and>
              sd_reads m' = sd_reads m @
                [(sec, p, map (\<lambda>n. rx m (pos (bus m) + 8 + k1 + k2 + n)) [0..<512])])"
    by blast
  have k1: "k1 = 0"
  proof (rule ccontr)
    assume "k1 \<noteq> 0"
    then have "0 < k1" by simp
    with k(3) have "rx m (pos (bus m) + 6 + 0) AND 0x80 \<noteq> 0" by blast
    with resp show False by simp
  qed
  with resp rest have tok: "\<forall>j<k2. rx m (pos (bus m) + 7 + j) \<noteq> 0xfe"
    and fin: "if rx m (pos (bus m) + 7 + k2) \<noteq> 0xfe
         then k2 = 16384 \<and> r = FAILURE \<and> pos (bus m') = pos (bus m) + 8 + k2 \<and>
              ram m' = ram m \<and> sdCardSector m' = sdCardSector m \<and> sd_reads m' = sd_reads m
         else r = SUCCESS \<and> pos (bus m') = pos (bus m) + 528 + k2 \<and>
              block_stored p (map (\<lambda>n. rx m (pos (bus m) + 8 + k2 + n)) [0..<512]) m m' \<and>
              sd_reads m' = sd_reads m @
                [(sec, p, map (\<lambda>n. rx m (pos (bus m) + 8 + k2 + n)) [0..<512])]"
    by (simp_all cong: if_cong)
  have "\<not> k < k2" using tok token by blast
  moreover have "\<not> k2 < k"
  proof
    assume lt: "k2 < k"
    with before have "rx m (pos (bus m) + 7 + k2) \<noteq> 0xfe" by blast
    with fin have "k2 = 16384" by simp
    with lt bound show False by simp
  qed
  ultimately have k2: "k2 = k" by simp
  with fin token have res: "r = SUCCESS" "pos (bus m') = pos (bus m) + 528 + k"
    "block_stored p (map (\<lambda>n. rx m (pos (bus m) + 8 + k + n)) [0..<512]) m m'"
    "sd_reads m' = sd_reads m @ [(sec, p, map (\<lambda>n. rx m (pos (bus m) + 8 + k + n)) [0..<512])]"
    by simp_all
  show "fst (readSector sec p m) = SUCCESS" using res run by simp
  show "pos (bus (snd (readSector sec p m))) = pos (bus m) + 528 + k" using res run by simp
  show "card (bus (snd (readSector sec p m))) = card (bus m)" using c run by simp
  show "block_stored p (map (\<lambda>n. rx m (pos (bus m) + 8 + k + n)) [0..<512]) m (snd (readSector sec p m))"
    using res run by simp
  show "sd_reads (snd (readSector sec p m)) = sd_reads m @
           [(sec, p, map (\<lambda>n. rx m (pos (bus m) + 8 + k + n)) [0..<512])]"
    using res run by simp
qed

lemma readSector_result:
  assumes "readSector sec p m = (r, m')"
  shows "(r = FAILURE \<and> ram m' = ram m \<and> sdCardSector m' = sdCardSector m \<and> sd_reads m' = sd_reads m)
       \<or> (r = SUCCESS \<and> (\<exists>d. length d = 512 \<and> block_stored p d m m' \<and>
                                sd_reads m' = sd_reads m @ [(sec, p, d)]))"
proof -
  from readSector_run[OF assms] obtain k1 k2 where
    rest: "if rx m (pos (bus m) + 6 + k1) \<noteq> 0
      then r = FAILURE \<and> pos (bus m') = pos (bus m) + 7 + k1 \<and> ram m' = ram m \<and>
           sdCardSector m' = sdCardSector m \<and> sd_reads m' = sd_reads m
      else (\<forall>j<k2. rx m (pos (bus m) + 7 + k1 + j) \<noteq> 0xfe) \<and>
        (if rx m (pos (bus m) + 7 + k1 + k2) \<noteq> 0xfe
         then k2 = 16384 \<and> r = FAILURE \<and> pos (bus m') = pos (bus m) + 8 + k1 + k2 \<and>
              ram m' = ram m \<and> sdCardSector m' = sdCardSector m \<and> sd_reads m' = sd_reads m
         else r = SUCCESS \<and> pos (bus m') = pos (bus m) + 528 + k1 + k2 \<and>
              block_stored p (map (\<lambda>n. rx m (pos (bus m) + 8 + k1 + k2 + n)) [0..<512]) m m' \<and>
              sd_reads m' = sd_reads m @
                [(sec, p, map (\<lambda>n. rx m (pos (bus m) + 8 + k1 + k2 + n)) [0..<512])])"
    by blast
  define d where "d = map (\<lambda>n. rx m (pos (bus m) + 8 + k1 + k2 + n)) [0..<512]"
  have "length d = 512" by (simp add: d_def)
  with rest[folded d_def] show ?thesis
    by (auto split: if_splits)
qed

text \<open>The value of four bytes read as a big-endian number.\<close>

definition be32 :: "u8 list \<Rightarrow> u32" where
  "be32 bs = push_bit 24 (ucast (bs ! 0)) OR push_bit 16 (ucast (bs ! 1)) OR
             push_bit 8 (ucast (bs ! 2)) OR ucast (bs ! 3)"

lemma cmd17_take_bit:
  "cmd17 sec = [0xff, 0x51, ucast (take_bit 8 (drop_bit 24 sec)), ucast (take_bit 8 (drop_bit 16 sec)),
      ucast (take_bit 8 (drop_bit 8 sec)), ucast (take_bit 8 sec), 0xff]"
  by (simp add: cmd17_def take_bit_eq_mask mask_eq_exp_minus_1)

lemma cmd17_big_endian: "be32 (take 4 (drop 2 (cmd17 sec))) = sec"
proof (rule bit_eqI)
  fix n assume "possible_bit TYPE(u32) n"
  then have n: "n < 32" by simp
  consider "n < 8" | "8 \<le> n" "n < 16" | "16 \<le> n" "n < 24" | "24 \<le> n" "n < 32"
    using n by linarith
  then show "bit (be32 (take 4 (drop 2 (cmd17 sec)))) n = bit sec n"
    by cases (auto simp: cmd17_take_bit be32_def bit_simps)
qed

text \<open>Sample machines: \<open>machine0 c\<close> is an idle machine with zeroed memory attached to card
  \<open>c\<close>. \<open>tardy_card\<close> accepts a read command at once and sends the block-start token only
  as the 16385th byte after the response. \<open>block_card blocks\<close> answers every command at
  once: each read takes 528 transfers, and the \<open>k\<close>-th read delivers the bytes
  \<open>blocks k 0\<close>, ..., \<open>blocks k 511\<close>.\<close>

definition machine0 :: "(nat \<Rightarrow> nat \<times> u8) \<Rightarrow> machine" where
  "machine0 c = \<lparr>bus = spi0 c, ram = (\<lambda>a. 0), sdCardSector = (\<lambda>n. 0), sd_reads = []\<rparr>"

lemma machine0_sel [simp]:
  "bus (machine0 c) = spi0 c" "ram (machine0 c) = (\<lambda>a. 0)"
  "sdCardSector (machine0 c) = (\<lambda>n. 0)" "sd_reads (machine0 c) = []"
  by (simp_all add: machine0_def)

definition tardy_card :: "nat \<Rightarrow> nat \<times> u8" where
  "tardy_card n = (0, if n = 6 then 0x00 else if n = 16391 then 0xfe else 0xff)"

definition block_card :: "(nat \<Rightarrow> nat \<Rightarrow> u8) \<Rightarrow> nat \<Rightarrow> nat \<times> u8" where
  "block_card blocks t =
     (0, if t mod 528 = 6 then 0x00
         else if t mod 528 = 7 then 0xfe
         else if 8 \<le> t mod 528 \<and> t mod 528 < 520 then blocks (t div 528) (t mod 528 - 8)
         else 0xff)"

lemma rx_machine0 [simp]: "rx (machine0 c) n = snd (c n)"
  by (simp add: rx_def)

lemma list_all_upt: "list_all P [0..<n] \<longleftrightarrow> (\<forall>j<n. P j)"
  by (auto simp: list_all_iff)

definition ideal_machine :: machine where
  "ideal_machine = machine0 (block_card (\<lambda>k n. of_nat n))"

text \<open>
  Claim C8, amended. \<open>readSector\<close> sends the seven bytes \<open>cmd17 sectorNumber\<close>, whose four
  argument bytes are the sector number in big-endian order, and after them only filler
  bytes \<open>0xff\<close>. The response is the first of the bytes of transfers \<open>pos + 6\<close>, ...,
  \<open>pos + 6 + 32\<close> with a clear high bit (the last of them if there is none); unless it is
  \<open>0x00\<close> the result is \<open>FAILURE\<close> and memory is unchanged. Otherwise the function
  reads one byte and then up to 16384 more, 16385 single-byte reads in all, until it has read the
  token \<open>0xfe\<close>; if none of the 16385 bytes is the token the result is \<open>FAILURE\<close> and
  memory is unchanged. After the token, which was read \<open>k2 + 1\<close> bytes after the response,
  the next 512 bytes are stored in \<open>storage[0]\<close>, ..., \<open>storage[511]\<close> in
  order, nothing else in memory changes, 8 more bytes are read, and the result is
  \<open>SUCCESS\<close>.
\<close>

theorem readSector_protocol:
  assumes "readSector sectorNumber storage m = (r, m')"
  shows "be32 (take 4 (drop 2 (cmd17 sectorNumber))) = sectorNumber \<and>
    (\<exists>k1 k2. k1 \<le> 32 \<and> k2 \<le> 16384 \<and>
     (\<forall>j<k1. rx m (pos (bus m) + 6 + j) AND 0x80 \<noteq> 0) \<and>
     (k1 < 32 \<longrightarrow> rx m (pos (bus m) + 6 + k1) AND 0x80 = 0) \<and>
     trace (bus m') = trace (bus m) @ map Tx (cmd17 sectorNumber)
                        @ replicate (pos (bus m') - (pos (bus m) + 7)) (Tx 0xff) \<and>
     (if rx m (pos (bus m) + 6 + k1) \<noteq> 0x00
      then r = FAILURE \<and> pos (bus m') = pos (bus m) + 7 + k1 \<and>
           ram m' = ram m \<and> sdCardSector m' = sdCardSector m
      else (\<forall>j<k2. rx m (pos (bus m) + 7 + k1 + j) \<noteq> 0xfe) \<and>
        (if rx m (pos (bus m) + 7 + k1 + k2) \<noteq> 0xfe
         then k2 = 16384 \<and> r = FAILURE \<and> pos (bus m') = pos (bus m) + 7 + k1 + 16385 \<and>
              ram m' = ram m \<and> sdCardSector m' = sdCardSector m
         else r = SUCCESS \<and> pos (bus m') = pos (bus m) + 7 + k1 + (k2 + 1) + 512 + 8 \<and>
              (\<forall>n<512. load_byte storage n m' = rx m (pos (bus m) + 7 + k1 + (k2 + 1) + n)) \<and>
              block_stored storage
                (map (\<lambda>n. rx m (pos (bus m) + 7 + k1 + (k2 + 1) + n)) [0..<512]) m m')))"
proof -
  from readSector_run[OF assms] obtain k1 k2 where
    k: "k1 \<le> 32" "k2 \<le> 16384"
      "\<forall>j<k1. rx m (pos (bus m) + 6 + j) AND 0x80 \<noteq> 0"
      "k1 < 32 \<longrightarrow> rx m (pos (bus m) + 6 + k1) AND 0x80 = 0"
      "trace (bus m') = trace (bus m) @ map Tx (cmd17 sectorNumber)
                        @ replicate (pos (bus m') - (pos (bus m) + 7)) (Tx 0xff)"
    and rest: "if rx m (pos (bus m) + 6 + k1) \<noteq> 0
      then r = FAILURE \<and> pos (bus m') = pos (bus m) + 7 + k1 \<and> ram m' = ram m \<and>
           sdCardSector m' = sdCardSector m \<and> sd_reads m' = sd_reads m
      else (\<forall>j<k2. rx m (pos (bus m) + 7 + k1 + j) \<noteq> 0xfe) \<and>
        (if rx m (pos (bus m) + 7 + k1 + k2) \<noteq> 0xfe
         then k2 = 16384 \<and> r = FAILURE \<and> pos (bus m') = pos (bus m) + 8 + k1 + k2 \<and>
              ram m' = ram m \<and> sdCardSector m' = sdCardSector m \<and> sd_reads m' = sd_reads m
         else r = SUCCESS \<and> pos (bus m') = pos (bus m) + 528 + k1 + k2 \<and>
              block_stored storage (map (\<lambda>n. rx m (pos (bus m) + 8 + k1 + k2 + n)) [0..<512]) m m' \<and>
              sd_reads m' = sd_reads m @
                [(sectorNumber, storage, map (\<lambda>n. rx m (pos (bus m) + 8 + k1 + k2 + n)) [0..<512])])"
    by blast
  have shift: "pos (bus m) + 7 + k1 + (k2 + 1) + n = pos (bus m) + 8 + k1 + k2 + n" for n
    by simp
  have tail: "(if rx m (pos (bus m) + 6 + k1) \<noteq> 0x00
      then r = FAILURE \<and> pos (bus m') = pos (bus m) + 7 + k1 \<and>
           ram m' = ram m \<and> sdCardSector m' = sdCardSector m
      else (\<forall>j<k2. rx m (pos (bus m) + 7 + k1 + j) \<noteq> 0xfe) \<and>
        (if rx m (pos (bus m) + 7 + k1 + k2) \<noteq> 0xfe
         then k2 = 16384 \<and> r = FAILURE \<and> pos (bus m') = pos (bus m) + 7 + k1 + 16385 \<and>
              ram m' = ram m \<and> sdCardSector m' = sdCardSector m
         else r = SUCCESS \<and> pos (bus m') = pos (bus m) + 7 + k1 + (k2 + 1) + 512 + 8 \<and>
              (\<forall>n<512. load_byte storage n m' = rx m (pos (bus m) + 7 + k1 + (k2 + 1) + n)) \<and>
              block_stored storage
                (map (\<lambda>n. rx m (pos (bus m) + 7 + k1 + (k2 + 1) + n)) [0..<512]) m m'))"
  proof (cases "rx m (pos (bus m) + 6 + k1) \<noteq> 0")
    case True
    with rest show ?thesis by simp
  next
    case False
    note resp = this
    show ?thesis
    proof (cases "rx m (pos (bus m) + 7 + k1 + k2) \<noteq> 0xfe")
      case True
      with resp rest show ?thesis by simp
    next
      case False
      with resp rest have res: "\<forall>j<k2. rx m (pos (bus m) + 7 + k1 + j) \<noteq> 0xfe"
        "r = SUCCESS" "pos (bus m') = pos (bus m) + 528 + k1 + k2"
        "block_stored storage (map (\<lambda>n. rx m (pos (bus m) + 8 + k1 + k2 + n)) [0..<512]) m m'"
        by simp_all
      have "load_byte storage n m' = rx m (pos (bus m) + 8 + k1 + k2 + n)" if "n < 512" for n
        using block_stored_load[OF res(4) _ that] that by (simp add: nth_map_512 del: upt_Suc)
      with res resp False show ?thesis
        unfolding shift by simp
    qed
  qed
  from k tail show ?thesis
    by (intro conjI cmd17_big_endian exI[of _ k1] exI[of _ k2])
qed

theorem readSector_protocol_witness:
  "readSector 5 Scratch ideal_machine = (SUCCESS, snd (readSector 5 Scratch ideal_machine)) \<and>
   be32 (take 4 (drop 2 (cmd17 5))) = 5 \<and>
    (\<exists>k1 k2. k1 \<le> 32 \<and> k2 \<le> 16384 \<and>
     (\<forall>j<k1. rx ideal_machine (pos (bus ideal_machine) + 6 + j) AND 0x80 \<noteq> 0) \<and>
     (k1 < 32 \<longrightarrow> rx ideal_machine (pos (bus ideal_machine) + 6 + k1) AND 0x80 = 0) \<and>
     trace (bus (snd (readSector 5 Scratch ideal_machine)))
       = trace (bus ideal_machine) @ map Tx (cmd17 5)
           @ replicate (pos (bus (snd (readSector 5 Scratch ideal_machine)))
                          - (pos (bus ideal_machine) + 7)) (Tx 0xff) \<and>
     (if rx ideal_machine (pos (bus ideal_machine) + 6 + k1) \<noteq> 0x00
      then SUCCESS = FAILURE \<and>
           pos (bus (snd (readSector 5 Scratch ideal_machine))) = pos (bus ideal_machine) + 7 + k1 \<and>
           ram (snd (readSector 5 Scratch ideal_machine)) = ram ideal_machine \<and>
           sdCardSector (snd (readSector 5 Scratch ideal_machine)) = sdCardSector ideal_machine
      else (\<forall>j<k2. rx ideal_machine (pos (bus ideal_machine) + 7 + k1 + j) \<noteq> 0xfe) \<and>
        (if rx ideal_machine (pos (bus ideal_machine) + 7 + k1 + k2) \<noteq> 0xfe
         then k2 = 16384 \<and> SUCCESS = FAILURE \<and>
              pos (bus (snd (readSector 5 Scratch ideal_machine)))
                = pos (bus ideal_machine) + 7 + k1 + 16385 \<and>
              ram (snd (readSector 5 Scratch ideal_machine)) = ram ideal_machine \<and>
              sdCardSector (snd (readSector 5 Scratch ideal_machine)) = sdCardSector ideal_machine
         else SUCCESS = SUCCESS \<and>
              pos (bus (snd (readSector 5 Scratch ideal_machine)))
                = pos (bus ideal_machine) + 7 + k1 + (k2 + 1) + 512 + 8 \<and>
              (\<forall>n<512. load_byte Scratch n (snd (readSector 5 Scratch ideal_machine))
                         = rx ideal_machine (pos (bus ideal_machine) + 7 + k1 + (k2 + 1) + n)) \<and>
              block_stored Scratch
                (map (\<lambda>n. rx ideal_machine (pos (bus ideal_machine) + 7 + k1 + (k2 + 1) + n)) [0..<512])
                ideal_machine (snd (readSector 5 Scratch ideal_machine)))))"
proof -
  have "fst (readSector 5 Scratch ideal_machine) = SUCCESS"
    by (rule readSector_token_at(1)[where k = 0]) (simp_all add: ideal_machine_def block_card_def)
  then have run: "readSector 5 Scratch ideal_machine = (SUCCESS, snd (readSector 5 Scratch ideal_machine))"
    by (metis prod.collapse)
  from run readSector_protocol[OF run] show ?thesis
    by (rule conjI)
qed

text \<open>Claim C8 as stated bounds the wait for the token by 16384 single-byte reads. On
  \<open>tardy_card\<close> the response \<open>0x00\<close> comes with transfer 6, none of the next 16384 bytes
  read (transfers 7 to 16390) is the token, the 16385th is, and \<open>readSector\<close> returns
  \<open>SUCCESS\<close>.\<close>

theorem readSector_token_bound_counterexample:
  "rx (machine0 tardy_card) 6 = 0x00 \<and>
   list_all (\<lambda>j. rx (machine0 tardy_card) (7 + j) \<noteq> 0xfe) [0..<16384] \<and>
   rx (machine0 tardy_card) (7 + 16384) = 0xfe \<and>
   fst (readSector 0 Scratch (machine0 tardy_card)) = SUCCESS"
proof -
  have a: "fst (readSector 0 Scratch (machine0 tardy_card)) = SUCCESS"
    by (rule readSector_token_at(1)[where k = 16384]) (simp_all add: tardy_card_def)
  have b: "list_all (\<lambda>j. rx (machine0 tardy_card) (7 + j) \<noteq> 0xfe) [0..<16384]"
    unfolding list_all_upt by (simp add: tardy_card_def)
  have c: "rx (machine0 tardy_card) 6 = 0x00" "rx (machine0 tardy_card) (7 + 16384) = 0xfe"
    by (simp_all add: tardy_card_def)
  from a b c show ?thesis by (intro conjI)
qed

section \<open>Properties of the metadata loader\<close>

lemma readSector_trace:
  assumes "readSector sec p m = (r, m')"
  shows "\<exists>k. trace (bus m') = trace (bus m) @ map Tx (cmd17 sec) @ replicate k (Tx 0xff)"
  using readSector_run[OF assms] by blast

text \<open>The sector number and the destination of each entry of the read log.\<close>

definition targets :: "(u32 \<times> storage \<times> u8 list) list \<Rightarrow> (u32 \<times> storage) list" where
  "targets l = map (\<lambda>(s, p, d). (s, p)) l"

lemma targets_simps [simp]:
  "targets [] = []" "targets ((s, p, d) # l) = (s, p) # targets l"
  "targets (l @ l') = targets l @ targets l'"
  by (simp_all add: targets_def)

lemma fat_loop_reads:
  assumes "fat_loop g n m = (r, m')"
  shows "(r = SUCCESS \<or> r = FAILURE) \<and> (\<exists>t. trace (bus m') = trace (bus m) @ t) \<and>
     (\<exists>l. sd_reads m' = sd_reads m @ l \<and>
        (r = SUCCESS \<longrightarrow> targets l =
           map (\<lambda>k. (fatSectorStart g + of_nat k,
                     Ram (sdCardFatTable g + ucast (sector_size (sdCardFatBootSector g)) * of_nat k)))
             [n..<unat (fat_size_sectors (sdCardFatBootSector g))]))"
  using assms
proof (induction g n m rule: fat_loop.induct)
  case (1 g n m)
  let ?N = "unat (fat_size_sectors (sdCardFatBootSector g))"
  show ?case
  proof (cases "n < ?N")
    case False
    with "1.prems" have "r = SUCCESS" "m' = m" by (subst (asm) fat_loop.simps, simp)+
    with False show ?thesis by simp
  next
    case True
    let ?sec = "fatSectorStart g + of_nat n"
    let ?p = "Ram (sdCardFatTable g + ucast (sector_size (sdCardFatBootSector g)) * of_nat n)"
    obtain r1 m1 where rs: "readSector ?sec ?p m = (r1, m1)" by force
    from readSector_trace[OF rs] obtain k where
      tr: "trace (bus m1) = trace (bus m) @ map Tx (cmd17 ?sec) @ replicate k (Tx 0xff)" by blast
    show ?thesis
    proof (cases "r1 = FAILURE")
      case fail: True
      with "1.prems" True rs have "r = FAILURE" "m' = m1" by (subst (asm) fat_loop.simps, simp)+
      moreover from readSector_result[OF rs] fail have "sd_reads m1 = sd_reads m" by auto
      ultimately show ?thesis using tr by simp
    next
      case ok: False
      with readSector_result[OF rs] obtain d where
        d: "sd_reads m1 = sd_reads m @ [(?sec, ?p, d)]" by auto
      from "1.prems" True rs ok have rest: "fat_loop g (n + 1) m1 = (r, m')"
        by (subst (asm) fat_loop.simps) simp
      from "1.IH"[OF True rs[symmetric] ok rest] obtain t l where
        IH: "r = SUCCESS \<or> r = FAILURE" "trace (bus m') = trace (bus m1) @ t"
          "sd_reads m' = sd_reads m1 @ l"
          "r = SUCCESS \<longrightarrow> targets l =
             map (\<lambda>k. (fatSectorStart g + of_nat k,
                     Ram (sdCardFatTable g + ucast (sector_size (sdCardFatBootSector g)) * of_nat k)))
               [n + 1..<?N]"
        by blast
      have up: "[n..<?N] = n # [n + 1..<?N]" using True by (simp add: upt_conv_Cons)
      show ?thesis
        using IH d tr unfolding up
        by (intro conjI exI[of _ "(?sec, ?p, d) # l"] exI[of _ "map Tx (cmd17 ?sec) @ replicate k (Tx 0xff) @ t"])
           simp_all
    qed
  qed
qed

lemma rootdir_loop_reads:
  assumes "rootdir_loop g n m = (r, m')"
  shows "(r = SUCCESS \<or> r = FAILURE) \<and> (\<exists>t. trace (bus m') = trace (bus m) @ t) \<and>
     (\<exists>l. sd_reads m' = sd_reads m @ l \<and>
        (r = SUCCESS \<longrightarrow> targets l =
           map (\<lambda>k. (rootDirSectorStart g + of_nat k,
                     Ram (ucast (sector_size (sdCardFatBootSector g)) * of_nat k + sdCardFat16RootDir g)))
             [n..<unat (rootdir_sectors g)]))"
  using assms
proof (induction g n m rule: rootdir_loop.induct)
  case (1 g n m)
  let ?N = "unat (rootdir_sectors g)"
  show ?case
  proof (cases "n < ?N")
    case False
    with "1.prems" have "r = SUCCESS" "m' = m" by (subst (asm) rootdir_loop.simps, simp)+
    with False show ?thesis by simp
  next
    case True
    let ?sec = "rootDirSectorStart g + of_nat n"
    let ?p = "Ram (ucast (sector_size (sdCardFatBootSector g)) * of_nat n + sdCardFat16RootDir g)"
    obtain r1 m1 where rs: "readSector ?sec ?p m = (r1, m1)" by force
    from readSector_trace[OF rs] obtain k where
      tr: "trace (bus m1) = trace (bus m) @ map Tx (cmd17 ?sec) @ replicate k (Tx 0xff)" by blast
    show ?thesis
    proof (cases "r1 = FAILURE")
      case fail: True
      with "1.prems" True rs have "r = FAILURE" "m' = m1" by (subst (asm) rootdir_loop.simps, simp)+
      moreover from readSector_result[OF rs] fail have "sd_reads m1 = sd_reads m" by auto
      ultimately show ?thesis using tr by simp
    next
      case ok: False
      with readSector_result[OF rs] obtain d where
        d: "sd_reads m1 = sd_reads m @ [(?sec, ?p, d)]" by auto
      from "1.prems" True rs ok have rest: "rootdir_loop g (n + 1) m1 = (r, m')"
        by (subst (asm) rootdir_loop.simps) simp
      from "1.IH"[OF True rs[symmetric] ok rest] obtain t l where
        IH: "r = SUCCESS \<or> r = FAILURE" "trace (bus m') = trace (bus m1) @ t"
          "sd_reads m' = sd_reads m1 @ l"
          "r = SUCCESS \<longrightarrow> targets l =
             map (\<lambda>k. (rootDirSectorStart g + of_nat k,
                     Ram (ucast (sector_size (sdCardFatBootSector g)) * of_nat k + sdCardFat16RootDir g)))
               [n + 1..<?N]"
        by blast
      have up: "[n..<?N] = n # [n + 1..<?N]" using True by (simp add: upt_conv_Cons)
      show ?thesis
        using IH d tr unfolding up
        by (intro conjI exI[of _ "(?sec, ?p, d) # l"] exI[of _ "map Tx (cmd17 ?sec) @ replicate k (Tx 0xff) @ t"])
           simp_all
    qed
  qed
qed


lemma readSector_block_card:
  assumes c: "card (bus m) = block_card blocks" and p: "pos (bus m) = 528 * k"
  shows "fst (readSector sec p' m) = SUCCESS"
    and "pos (bus (snd (readSector sec p' m))) = 528 * Suc k"
    and "card (bus (snd (readSector sec p' m))) = block_card blocks"
    and "block_stored p' (map (blocks k) [0..<512]) m (snd (readSector sec p' m))"
    and "sd_reads (snd (readSector sec p' m)) = sd_reads m @ [(sec, p', map (blocks k) [0..<512])]"
proof -
  have m6: "(528 * k + 6) mod 528 = 6" and m7: "(528 * k + 7) mod 528 = 7" by simp_all
  have resp: "rx m (pos (bus m) + 6) = 0"
    by (simp add: rx_def c p block_card_def m6)
  have tok: "rx m (pos (bus m) + 7 + 0) = 0xfe"
    by (simp add: rx_def c p block_card_def m7)
  have data: "rx m (pos (bus m) + 8 + n) = blocks k n" if "n < 512" for n
  proof -
    have e: "528 * k + 8 + n = (8 + n) + k * 528" by simp
    have "(528 * k + 8 + n) mod 528 = 8 + n" "(528 * k + 8 + n) div 528 = k"
      unfolding e using that by (simp_all only: mod_mult_self1 div_mult_self1) simp_all
    then show ?thesis using that by (simp add: rx_def c p block_card_def)
  qed
  have d: "map (\<lambda>n. rx m (pos (bus m) + 8 + 0 + n)) [0..<512] = map (blocks k) [0..<512]"
    by (rule map_cong) (simp_all add: data del: upt_Suc)
  note T = readSector_token_at[where k = 0 and m = m, OF resp _ tok]
  show "fst (readSector sec p' m) = SUCCESS" by (rule T(1)) simp_all
  show "pos (bus (snd (readSector sec p' m))) = 528 * Suc k"
    using T(2)[of sec p'] p by simp
  show "card (bus (snd (readSector sec p' m))) = block_card blocks"
    using T(3)[of sec p'] c by simp
  show "block_stored p' (map (blocks k) [0..<512]) m (snd (readSector sec p' m))"
    using T(4)[of p' sec] unfolding d by simp
  show "sd_reads (snd (readSector sec p' m)) = sd_reads m @ [(sec, p', map (blocks k) [0..<512])]"
    using T(5)[of sec p'] unfolding d by simp
qed


lemma readMBR_rootdir_trace:
  assumes "readMBR_rootdir base sz g m = (r, g', m')"
  shows "\<exists>t. trace (bus m') = trace (bus m) @ t"
proof (cases "sector_size (sdCardFatBootSector g) = 0")
  case True
  with assms show ?thesis by (simp add: readMBR_rootdir_def Let_def)
next
  case False
  define g2 where "g2 = g\<lparr>sdCardFat16RootDir :=
      base + sz - ucast (sector_size (sdCardFatBootSector g)) * ucast (fat_size_sectors (sdCardFatBootSector g))
        - ucast (root_dir_entries (sdCardFatBootSector g)) * sizeof_Fat16Entry,
    rootDirSectorStart := start_sector (sdCardPartition g)
        + ucast (reserved_sectors (sdCardFatBootSector g))
        + ucast (number_of_fats (sdCardFatBootSector g)) * ucast (fat_size_sectors (sdCardFatBootSector g))\<rparr>"
  obtain r4 m4 where l: "rootdir_loop g2 0 m = (r4, m4)" by force
  with assms False have "m' = m4"
    by (simp add: readMBR_rootdir_def Let_def g2_def split: if_splits)
  with rootdir_loop_reads[OF l] show ?thesis by blast
qed

lemma readMBR_rootdir_success:
  assumes "readMBR_rootdir base sz g m = (SUCCESS, g', m')"
  shows "sector_size (sdCardFatBootSector g) \<noteq> 0"
    and "g' = g\<lparr>sdCardFat16RootDir :=
      base + sz - ucast (sector_size (sdCardFatBootSector g)) * ucast (fat_size_sectors (sdCardFatBootSector g))
        - ucast (root_dir_entries (sdCardFatBootSector g)) * sizeof_Fat16Entry,
      rootDirSectorStart := start_sector (sdCardPartition g)
        + ucast (reserved_sectors (sdCardFatBootSector g))
        + ucast (number_of_fats (sdCardFatBootSector g)) * ucast (fat_size_sectors (sdCardFatBootSector g))\<rparr>"
    and "\<exists>l. sd_reads m' = sd_reads m @ l \<and> targets l =
           map (\<lambda>k. (rootDirSectorStart g' + of_nat k,
                     Ram (ucast (sector_size (sdCardFatBootSector g')) * of_nat k + sdCardFat16RootDir g')))
             [0..<unat (rootdir_sectors g')]"
proof -
  show nz: "sector_size (sdCardFatBootSector g) \<noteq> 0"
    using assms by (auto simp: readMBR_rootdir_def Let_def)
  define g2 where "g2 = g\<lparr>sdCardFat16RootDir :=
      base + sz - ucast (sector_size (sdCardFatBootSector g)) * ucast (fat_size_sectors (sdCardFatBootSector g))
        - ucast (root_dir_entries (sdCardFatBootSector g)) * sizeof_Fat16Entry,
    rootDirSectorStart := start_sector (sdCardPartition g)
        + ucast (reserved_sectors (sdCardFatBootSector g))
        + ucast (number_of_fats (sdCardFatBootSector g)) * ucast (fat_size_sectors (sdCardFatBootSector g))\<rparr>"
  obtain r4 m4 where l: "rootdir_loop g2 0 m = (r4, m4)" by force
  with assms nz have res: "g' = g2" "m' = m4" "r4 \<noteq> FAILURE"
    by (simp_all add: readMBR_rootdir_def Let_def g2_def split: if_splits)
  from res(1) show "g' = g\<lparr>sdCardFat16RootDir :=
      base + sz - ucast (sector_size (sdCardFatBootSector g)) * ucast (fat_size_sectors (sdCardFatBootSector g))
        - ucast (root_dir_entries (sdCardFatBootSector g)) * sizeof_Fat16Entry,
      rootDirSectorStart := start_sector (sdCardPartition g)
        + ucast (reserved_sectors (sdCardFatBootSector g))
        + ucast (number_of_fats (sdCardFatBootSector g)) * ucast (fat_size_sectors (sdCardFatBootSector g))\<rparr>"
    by (simp add: g2_def)
  from rootdir_loop_reads[OF l] res show "\<exists>l. sd_reads m' = sd_reads m @ l \<and> targets l =
           map (\<lambda>k. (rootDirSectorStart g' + of_nat k,
                     Ram (ucast (sector_size (sdCardFatBootSector g')) * of_nat k + sdCardFat16RootDir g')))
             [0..<unat (rootdir_sectors g')]"
    by auto
qed


lemma readMBR_fat_trace:
  assumes "readMBR_fat base sz g m = (r, g', m')"
  shows "\<exists>t. trace (bus m') = trace (bus m) @ t"
proof -
  define g2 where "g2 = g\<lparr>sdCardFatTable :=
      base + sz - ucast (sector_size (sdCardFatBootSector g)) * ucast (fat_size_sectors (sdCardFatBootSector g)),
    fatSectorStart := start_sector (sdCardPartition g) + ucast (reserved_sectors (sdCardFatBootSector g))\<rparr>"
  obtain r3 m3 where l: "fat_loop g2 0 m = (r3, m3)" by force
  from fat_loop_reads[OF l] obtain t3 where t3: "trace (bus m3) = trace (bus m) @ t3" by blast
  show ?thesis
  proof (cases "r3 = FAILURE")
    case True
    with assms l have "m' = m3" by (simp add: readMBR_fat_def Let_def g2_def)
    with t3 show ?thesis by blast
  next
    case False
    with assms l have "readMBR_rootdir base sz g2 m3 = (r, g', m')"
      by (simp add: readMBR_fat_def Let_def g2_def)
    from readMBR_rootdir_trace[OF this] t3 show ?thesis by auto
  qed
qed

lemma readMBR_fat_success:
  assumes "readMBR_fat base sz g m = (SUCCESS, g', m')"
  shows "sdCardPartition g' = sdCardPartition g"
    and "sdCardFatBootSector g' = sdCardFatBootSector g"
    and "sdCardFatTable g' =
      base + sz - ucast (sector_size (sdCardFatBootSector g)) * ucast (fat_size_sectors (sdCardFatBootSector g))"
    and "fatSectorStart g' = start_sector (sdCardPartition g) + ucast (reserved_sectors (sdCardFatBootSector g))"
    and "sdCardFat16RootDir g' =
      base + sz - ucast (sector_size (sdCardFatBootSector g)) * ucast (fat_size_sectors (sdCardFatBootSector g))
        - ucast (root_dir_entries (sdCardFatBootSector g)) * sizeof_Fat16Entry"
    and "rootDirSectorStart g' = start_sector (sdCardPartition g)
        + ucast (reserved_sectors (sdCardFatBootSector g))
        + ucast (number_of_fats (sdCardFatBootSector g)) * ucast (fat_size_sectors (sdCardFatBootSector g))"
    and "sector_size (sdCardFatBootSector g) \<noteq> 0"
    and "\<exists>l3 l4. sd_reads m' = sd_reads m @ l3 @ l4 \<and>
          targets l3 =
            map (\<lambda>k. (fatSectorStart g' + of_nat k,
                     Ram (sdCardFatTable g' + ucast (sector_size (sdCardFatBootSector g')) * of_nat k)))
              [0..<unat (fat_size_sectors (sdCardFatBootSector g'))] \<and>
          targets l4 =
            map (\<lambda>k. (rootDirSectorStart g' + of_nat k,
                     Ram (ucast (sector_size (sdCardFatBootSector g')) * of_nat k + sdCardFat16RootDir g')))
              [0..<unat (rootdir_sectors g')]"
proof -
  define g2 where "g2 = g\<lparr>sdCardFatTable :=
      base + sz - ucast (sector_size (sdCardFatBootSector g)) * ucast (fat_size_sectors (sdCardFatBootSector g)),
    fatSectorStart := start_sector (sdCardPartition g) + ucast (reserved_sectors (sdCardFatBootSector g))\<rparr>"
  obtain r3 m3 where l: "fat_loop g2 0 m = (r3, m3)" by force
  from assms l have ok: "r3 \<noteq> FAILURE" and rd: "readMBR_rootdir base sz g2 m3 = (SUCCESS, g', m')"
    by (auto simp: readMBR_fat_def Let_def g2_def split: if_splits)
  from fat_loop_reads[OF l] ok have r3: "r3 = SUCCESS" by blast
  with fat_loop_reads[OF l] obtain l3 where l3: "sd_reads m3 = sd_reads m @ l3"
    "targets l3 = map (\<lambda>k. (fatSectorStart g2 + of_nat k,
                     Ram (sdCardFatTable g2 + ucast (sector_size (sdCardFatBootSector g2)) * of_nat k)))
              [0..<unat (fat_size_sectors (sdCardFatBootSector g2))]"
    by blast
  note R = readMBR_rootdir_success[OF rd]
  from R(3) obtain l4 where l4: "sd_reads m' = sd_reads m3 @ l4"
    "targets l4 = map (\<lambda>k. (rootDirSectorStart g' + of_nat k,
                     Ram (ucast (sector_size (sdCardFatBootSector g')) * of_nat k + sdCardFat16RootDir g')))
             [0..<unat (rootdir_sectors g')]"
    by blast
  show "sdCardPartition g' = sdCardPartition g" "sdCardFatBootSector g' = sdCardFatBootSector g"
    "sdCardFatTable g' =
      base + sz - ucast (sector_size (sdCardFatBootSector g)) * ucast (fat_size_sectors (sdCardFatBootSector g))"
    "fatSectorStart g' = start_sector (sdCardPartition g) + ucast (reserved_sectors (sdCardFatBootSector g))"
    "sdCardFat16RootDir g' =
      base + sz - ucast (sector_size (sdCardFatBootSector g)) * ucast (fat_size_sectors (sdCardFatBootSector g))
        - ucast (root_dir_entries (sdCardFatBootSector g)) * sizeof_Fat16Entry"
    "rootDirSectorStart g' = start_sector (sdCardPartition g)
        + ucast (reserved_sectors (sdCardFatBootSector g))
        + ucast (number_of_fats (sdCardFatBootSector g)) * ucast (fat_size_sectors (sdCardFatBootSector g))"
    "sector_size (sdCardFatBootSector g) \<noteq> 0"
    using R(1) by (simp_all add: R(2) g2_def)
  have same: "fatSectorStart g' = fatSectorStart g2" "sdCardFatTable g' = sdCardFatTable g2"
    "sdCardFatBootSector g' = sdCardFatBootSector g2"
    by (simp_all add: R(2))
  show "\<exists>l3 l4. sd_reads m' = sd_reads m @ l3 @ l4 \<and>
          targets l3 =
            map (\<lambda>k. (fatSectorStart g' + of_nat k,
                     Ram (sdCardFatTable g' + ucast (sector_size (sdCardFatBootSector g')) * of_nat k)))
              [0..<unat (fat_size_sectors (sdCardFatBootSector g'))] \<and>
          targets l4 =
            map (\<lambda>k. (rootDirSectorStart g' + of_nat k,
                     Ram (ucast (sector_size (sdCardFatBootSector g')) * of_nat k + sdCardFat16RootDir g')))
              [0..<unat (rootdir_sectors g')]"
    using l3 l4 unfolding same by (intro exI[of _ l3] exI[of _ l4]) simp
qed


lemma readMBR_bootsector_trace:
  assumes "readMBR_bootsector base sz g m = (r, g', m')"
  shows "\<exists>t. trace (bus m') = trace (bus m) @ map Tx (cmd17 (start_sector (sdCardPartition g))) @ t"
proof -
  obtain r2 m2 where rs: "readSector (start_sector (sdCardPartition g)) Scratch m = (r2, m2)" by force
  from readSector_trace[OF rs] obtain k where
    k: "trace (bus m2) = trace (bus m) @ map Tx (cmd17 (start_sector (sdCardPartition g))) @ replicate k (Tx 0xff)"
    by blast
  define g1 where "g1 = g\<lparr>sdCardFatBootSector := parse_bootsector (sdCardSector m2)\<rparr>"
  show ?thesis
  proof (cases "r2 = SUCCESS \<and> total_sectors_long (sdCardFatBootSector g1) \<noteq> 0")
    case False
    with assms rs have "m' = m2"
      by (auto simp: readMBR_bootsector_def Let_def g1_def split: if_splits)
    with k show ?thesis by simp
  next
    case True
    with assms rs have "readMBR_fat base sz g1 m2 = (r, g', m')"
      by (simp add: readMBR_bootsector_def Let_def g1_def)
    from readMBR_fat_trace[OF this] k show ?thesis by auto
  qed
qed

lemma readMBR_bootsector_success:
  assumes "readMBR_bootsector base sz g m = (SUCCESS, g', m')"
  shows "sdCardPartition g' = sdCardPartition g"
    and "total_sectors_long (sdCardFatBootSector g') \<noteq> 0"
    and "sdCardFatTable g' =
      base + sz - ucast (sector_size (sdCardFatBootSector g')) * ucast (fat_size_sectors (sdCardFatBootSector g'))"
    and "fatSectorStart g' = start_sector (sdCardPartition g') + ucast (reserved_sectors (sdCardFatBootSector g'))"
    and "sdCardFat16RootDir g' =
      base + sz - ucast (sector_size (sdCardFatBootSector g')) * ucast (fat_size_sectors (sdCardFatBootSector g'))
        - ucast (root_dir_entries (sdCardFatBootSector g')) * sizeof_Fat16Entry"
    and "rootDirSectorStart g' = start_sector (sdCardPartition g')
        + ucast (reserved_sectors (sdCardFatBootSector g'))
        + ucast (number_of_fats (sdCardFatBootSector g')) * ucast (fat_size_sectors (sdCardFatBootSector g'))"
    and "sector_size (sdCardFatBootSector g') \<noteq> 0"
    and "\<exists>d l3 l4. sd_reads m' = sd_reads m @ (start_sector (sdCardPartition g), Scratch, d) # l3 @ l4 \<and>
          sdCardFatBootSector g' = parse_bootsector (\<lambda>k. if k < 512 then d ! k else sdCardSector m k) \<and>
          targets l3 =
            map (\<lambda>k. (fatSectorStart g' + of_nat k,
                     Ram (sdCardFatTable g' + ucast (sector_size (sdCardFatBootSector g')) * of_nat k)))
              [0..<unat (fat_size_sectors (sdCardFatBootSector g'))] \<and>
          targets l4 =
            map (\<lambda>k. (rootDirSectorStart g' + of_nat k,
                     Ram (ucast (sector_size (sdCardFatBootSector g')) * of_nat k + sdCardFat16RootDir g')))
              [0..<unat (rootdir_sectors g')]"
proof -
  obtain r2 m2 where rs: "readSector (start_sector (sdCardPartition g)) Scratch m = (r2, m2)" by force
  define g1 where "g1 = g\<lparr>sdCardFatBootSector := parse_bootsector (sdCardSector m2)\<rparr>"
  from assms rs have ok: "r2 = SUCCESS" "total_sectors_long (sdCardFatBootSector g1) \<noteq> 0"
    and fat: "readMBR_fat base sz g1 m2 = (SUCCESS, g', m')"
    by (auto simp: readMBR_bootsector_def Let_def g1_def split: if_splits)
  from readSector_result[OF rs] ok obtain d where d: "length d = 512"
    "block_stored Scratch d m m2" "sd_reads m2 = sd_reads m @ [(start_sector (sdCardPartition g), Scratch, d)]"
    by auto
  note F = readMBR_fat_success[OF fat]
  have bs: "sdCardFatBootSector g' = sdCardFatBootSector g1" by (rule F(2))
  have pt: "sdCardPartition g' = sdCardPartition g1" by (rule F(1))
  show "sdCardPartition g' = sdCardPartition g" using pt by (simp add: g1_def)
  show "total_sectors_long (sdCardFatBootSector g') \<noteq> 0" using ok bs by simp
  show "sdCardFatTable g' =
      base + sz - ucast (sector_size (sdCardFatBootSector g')) * ucast (fat_size_sectors (sdCardFatBootSector g'))"
    unfolding bs by (rule F(3))
  show "fatSectorStart g' = start_sector (sdCardPartition g') + ucast (reserved_sectors (sdCardFatBootSector g'))"
    unfolding bs pt by (rule F(4))
  show "sdCardFat16RootDir g' =
      base + sz - ucast (sector_size (sdCardFatBootSector g')) * ucast (fat_size_sectors (sdCardFatBootSector g'))
        - ucast (root_dir_entries (sdCardFatBootSector g')) * sizeof_Fat16Entry"
    unfolding bs by (rule F(5))
  show "rootDirSectorStart g' = start_sector (sdCardPartition g')
        + ucast (reserved_sectors (sdCardFatBootSector g'))
        + ucast (number_of_fats (sdCardFatBootSector g')) * ucast (fat_size_sectors (sdCardFatBootSector g'))"
    unfolding bs pt by (rule F(6))
  show "sector_size (sdCardFatBootSector g') \<noteq> 0" unfolding bs by (rule F(7))
  from F(8) obtain l3 l4 where l: "sd_reads m' = sd_reads m2 @ l3 @ l4"
    "targets l3 =
            map (\<lambda>k. (fatSectorStart g' + of_nat k,
                     Ram (sdCardFatTable g' + ucast (sector_size (sdCardFatBootSector g')) * of_nat k)))
              [0..<unat (fat_size_sectors (sdCardFatBootSector g'))]"
    "targets l4 =
            map (\<lambda>k. (rootDirSectorStart g' + of_nat k,
                     Ram (ucast (sector_size (sdCardFatBootSector g')) * of_nat k + sdCardFat16RootDir g')))
              [0..<unat (rootdir_sectors g')]"
    by blast
  have "sdCardFatBootSector g' = parse_bootsector (\<lambda>k. if k < 512 then d ! k else sdCardSector m k)"
    using d(2) bs by (simp add: g1_def)
  with l d(3) show "\<exists>d l3 l4. sd_reads m' = sd_reads m @ (start_sector (sdCardPartition g), Scratch, d) # l3 @ l4 \<and>
          sdCardFatBootSector g' = parse_bootsector (\<lambda>k. if k < 512 then d ! k else sdCardSector m k) \<and>
          targets l3 =
            map (\<lambda>k. (fatSectorStart g' + of_nat k,
                     Ram (sdCardFatTable g' + ucast (sector_size (sdCardFatBootSector g')) * of_nat k)))
              [0..<unat (fat_size_sectors (sdCardFatBootSector g'))] \<and>
          targets l4 =
            map (\<lambda>k. (rootDirSectorStart g' + of_nat k,
                     Ram (ucast (sector_size (sdCardFatBootSector g')) * of_nat k + sdCardFat16RootDir g')))
              [0..<unat (rootdir_sectors g')]"
    by (intro exI[of _ d] exI[of _ l3] exI[of _ l4]) simp
qed


lemma readMBR_bootsector_partition:
  assumes "readMBR_bootsector base sz g m = (r, g', m')"
  shows "sdCardPartition g' = sdCardPartition g"
  using assms
  by (auto simp: readMBR_bootsector_def readMBR_fat_def readMBR_rootdir_def Let_def
      split: prod.splits if_splits)

lemma unat_ucast_up:
  fixes w :: "'a::len word"
  assumes "LENGTH('a) \<le> LENGTH('b::len)"
  shows "unat (ucast w :: 'b word) = unat w"
proof -
  have "unat w < 2 ^ LENGTH('a)" by simp
  also have "(2::nat) ^ LENGTH('a) \<le> 2 ^ LENGTH('b)"
    using assms by (simp add: power_increasing)
  finally show ?thesis
    by (simp add: unsigned_ucast_eq take_bit_nat_eq_self)
qed

lemma unat_rootdir_sectors:
  "unat (rootdir_sectors g) =
     unat (root_dir_entries (sdCardFatBootSector g)) * 32 div unat (sector_size (sdCardFatBootSector g))"
proof -
  let ?e = "root_dir_entries (sdCardFatBootSector g)"
  have e: "unat (ucast ?e :: u32) = unat ?e" by (simp add: unat_ucast_up)
  have "unat ?e < 2 ^ 16" using unsigned_less[of ?e] by simp
  then have "unat (ucast ?e :: u32) * unat (32 :: u32) < 2 ^ LENGTH(32)" by (simp add: e)
  then have "unat (ucast ?e * 32 :: u32) = unat ?e * 32"
    by (simp add: unat_mult_lem[THEN iffD1] e)
  then show ?thesis
    by (simp add: rootdir_sectors_def sizeof_Fat16Entry_def unat_div unat_ucast_up)
qed

lemma readMBR_success_layout:
  assumes "spi_sdcard_readMBR base sz g m = (SUCCESS, g', m')"
  shows "rootDirSectorStart g' =
           start_sector (sdCardPartition g') + ucast (reserved_sectors (sdCardFatBootSector g'))
             + ucast (number_of_fats (sdCardFatBootSector g')) * ucast (fat_size_sectors (sdCardFatBootSector g')) \<and>
         sdCardFatTable g' =
           base + sz - ucast (sector_size (sdCardFatBootSector g')) * ucast (fat_size_sectors (sdCardFatBootSector g')) \<and>
         sdCardFat16RootDir g' + ucast (root_dir_entries (sdCardFatBootSector g')) * sizeof_Fat16Entry
           = sdCardFatTable g' \<and>
         sizeof_Fat16Entry = 32 \<and>
         sector_size (sdCardFatBootSector g') \<noteq> 0 \<and>
         unat (rootdir_sectors g') =
           unat (root_dir_entries (sdCardFatBootSector g')) * 32 div unat (sector_size (sdCardFatBootSector g')) \<and>
         targets (drop (length (sd_reads m)) (sd_reads m')) =
           (0, Scratch) # (start_sector (sdCardPartition g'), Scratch) #
           map (\<lambda>k. (fatSectorStart g' + of_nat k,
                     Ram (sdCardFatTable g' + ucast (sector_size (sdCardFatBootSector g')) * of_nat k)))
             [0..<unat (fat_size_sectors (sdCardFatBootSector g'))] @
           map (\<lambda>k. (rootDirSectorStart g' + of_nat k,
                     Ram (ucast (sector_size (sdCardFatBootSector g')) * of_nat k + sdCardFat16RootDir g')))
             [0..<unat (rootdir_sectors g')]"
proof -
  obtain r1 m1 where rs: "readSector 0 Scratch m = (r1, m1)" by force
  define g1 where "g1 = g\<lparr>sdCardPartition := parse_partition (sdCardSector m1)\<rparr>"
  from assms rs have ok: "r1 = SUCCESS"
    and boot: "readMBR_bootsector base sz g1 m1 = (SUCCESS, g', m')"
    by (auto simp: spi_sdcard_readMBR_def Let_def g1_def split: if_splits)
  from readSector_result[OF rs] ok obtain d1 where
    d1: "sd_reads m1 = sd_reads m @ [(0, Scratch, d1)]" by auto
  note B = readMBR_bootsector_success[OF boot]
  from B(8) obtain d l3 l4 where
    l: "sd_reads m' = sd_reads m1 @ (start_sector (sdCardPartition g1), Scratch, d) # l3 @ l4"
      "targets l3 =
            map (\<lambda>k. (fatSectorStart g' + of_nat k,
                     Ram (sdCardFatTable g' + ucast (sector_size (sdCardFatBootSector g')) * of_nat k)))
              [0..<unat (fat_size_sectors (sdCardFatBootSector g'))]"
      "targets l4 =
            map (\<lambda>k. (rootDirSectorStart g' + of_nat k,
                     Ram (ucast (sector_size (sdCardFatBootSector g')) * of_nat k + sdCardFat16RootDir g')))
              [0..<unat (rootdir_sectors g')]"
    by blast
  have log: "targets (drop (length (sd_reads m)) (sd_reads m')) =
      (0, Scratch) # (start_sector (sdCardPartition g'), Scratch) # targets l3 @ targets l4"
    by (simp add: l(1) d1 B(1))
  have below: "sdCardFat16RootDir g' + ucast (root_dir_entries (sdCardFatBootSector g')) * sizeof_Fat16Entry
           = sdCardFatTable g'"
    by (simp add: B(3) B(5))
  show ?thesis
    using B(6) B(3) below B(7) unat_rootdir_sectors[of g'] log
    unfolding l(2) l(3)
    by (intro conjI) (simp_all add: sizeof_Fat16Entry_def)
qed

subsection \<open>Reads that are answered at once\<close>

text \<open>When the card answers the command with \<^verbatim>\<open>0x00\<close> after the six command bytes and
  sends the token next, a read takes 528 transfers and always succeeds.\<close>

lemma rx_readSector [simp]: "rx (snd (readSector sec p m)) = rx m"
proof -
  obtain r m' where run: "readSector sec p m = (r, m')" by force
  from readSector_run[OF run] have "card (bus m') = card (bus m)" by blast
  with run show ?thesis by (simp add: rx_def fun_eq_iff)
qed

lemma readSector_prompt:
  assumes "rx m (pos (bus m) + 6) = 0x00" "rx m (pos (bus m) + 7) = 0xfe"
  shows "fst (readSector sec p m) = SUCCESS"
    and "pos (bus (snd (readSector sec p m))) = pos (bus m) + 528"
    and "sd_reads (snd (readSector sec p m)) =
           sd_reads m @ [(sec, p, map (\<lambda>n. rx m (pos (bus m) + 8 + n)) [0..<512])]"
    and "sdCardSector (snd (readSector sec Scratch m)) =
           (\<lambda>k. if k < 512 then rx m (pos (bus m) + 8 + k) else sdCardSector m k)"
    and "ram (snd (readSector sec Scratch m)) = ram m"
    and "sdCardSector (snd (readSector sec (Ram a) m)) = sdCardSector m"
    and "ram (snd (readSector sec (Ram a) m)) =
           store_bytes a (map (\<lambda>n. rx m (pos (bus m) + 8 + n)) [0..<512]) (ram m)"
proof -
  note T = readSector_token_at[where k = 0 and m = m, simplified, OF assms]
  show "fst (readSector sec p m) = SUCCESS" by (rule T(1))
  show "pos (bus (snd (readSector sec p m))) = pos (bus m) + 528" by (rule T(2))
  show "sd_reads (snd (readSector sec p m)) =
           sd_reads m @ [(sec, p, map (\<lambda>n. rx m (pos (bus m) + 8 + n)) [0..<512])]" by (rule T(5))
  have "sdCardSector (snd (readSector sec Scratch m)) k =
      (if k < 512 then rx m (pos (bus m) + 8 + k) else sdCardSector m k)" for k
    using T(4)[of Scratch sec] by (cases "k < 512") (simp_all add: nth_map_512 del: upt_Suc)
  then show "sdCardSector (snd (readSector sec Scratch m)) =
           (\<lambda>k. if k < 512 then rx m (pos (bus m) + 8 + k) else sdCardSector m k)"
    by (rule ext)
  show "ram (snd (readSector sec Scratch m)) = ram m" using T(4)[of Scratch sec] by simp
  show "sdCardSector (snd (readSector sec (Ram a) m)) = sdCardSector m"
    using T(4)[of "Ram a" sec] by simp
  show "ram (snd (readSector sec (Ram a) m)) =
           store_bytes a (map (\<lambda>n. rx m (pos (bus m) + 8 + n)) [0..<512]) (ram m)"
    using T(4)[of "Ram a" sec] by simp
qed

subsection \<open>Sample disks\<close>

text \<open>\<open>disk_image status ptype entries\<close> is a disk whose sector 0 holds a partition table
  with the given status byte and type code and first partition at sector 1, and whose
  sector 1 is a boot sector with 512-byte sectors, 4 sectors per cluster, 1 reserved
  sector, 2 allocation tables of 1 sector each and \<open>entries\<close> root directory entries.
  \<open>mbr_run\<close> loads it on a machine with main memory at \<^verbatim>\<open>0x40000000\<close> of size
  \<^verbatim>\<open>0x02000000\<close>.\<close>

definition disk_image :: "u8 \<Rightarrow> u8 \<Rightarrow> u8 \<Rightarrow> nat \<Rightarrow> nat \<Rightarrow> u8" where
  "disk_image status ptype entries k n =
     (if k = 0 then
        (if n = 0x1be then status else if n = 0x1c2 then ptype else if n = 0x1c6 then 1 else 0)
      else if k = 1 then
        (if n = 12 then 2 else if n = 13 then 4 else if n = 14 then 1 else if n = 16 then 2
         else if n = 17 then entries else if n = 22 then 1
         else if n = 32 then 0xe8 else if n = 33 then 0x03 else 0)
      else 0)"

definition blank_globals :: globals where
  "blank_globals =
     \<lparr>sdCardPartition =
        \<lparr>first_byte = 0, start_chs = [], partition_type = 0, end_chs = [],
         start_sector = 0, length_sectors = 0\<rparr>,
      sdCardFatBootSector =
        \<lparr>sector_size = 0, sectors_per_cluster = 0, reserved_sectors = 0, number_of_fats = 0,
         root_dir_entries = 0, total_sectors_short = 0, media_descriptor = 0,
         fat_size_sectors = 0, sectors_per_track = 0, number_of_heads = 0, hidden_sectors = 0,
         total_sectors_long = 0\<rparr>,
      sdCardFat16RootDir = 0, sdCardFatTable = 0, fatSectorStart = 0, rootDirSectorStart = 0\<rparr>"

definition mbr_machine :: "u8 \<Rightarrow> u8 \<Rightarrow> u8 \<Rightarrow> machine" where
  "mbr_machine status ptype entries = machine0 (block_card (disk_image status ptype entries))"

definition mbr_run :: "u8 \<Rightarrow> u8 \<Rightarrow> u8 \<Rightarrow> ret \<times> globals \<times> machine" where
  "mbr_run status ptype entries =
     spi_sdcard_readMBR 0x40000000 0x02000000 blank_globals (mbr_machine status ptype entries)"

definition mbr_globals :: "u8 \<Rightarrow> u8 \<Rightarrow> u8 \<Rightarrow> globals" where
  "mbr_globals status ptype entries = fst (snd (mbr_run status ptype entries))"

definition mbr_final :: "u8 \<Rightarrow> u8 \<Rightarrow> u8 \<Rightarrow> machine" where
  "mbr_final status ptype entries = snd (snd (mbr_run status ptype entries))"

lemmas mbr_eval =
  mbr_run_def mbr_machine_def mbr_globals_def mbr_final_def
  spi_sdcard_readMBR_def readMBR_bootsector_def readMBR_fat_def
  readMBR_rootdir_def Let_def case_prod_beta readSector_prompt block_card_def disk_image_def
  parse_partition_def parse_bootsector_def le16_def le32_def fat_loop.simps rootdir_loop.simps
  rootdir_sectors_def sizeof_Fat16Entry_def

lemma mbr_run_collapse:
  "spi_sdcard_readMBR 0x40000000 0x02000000 blank_globals (mbr_machine s p e) =
     (fst (mbr_run s p e), mbr_globals s p e, mbr_final s p e)"
  by (simp add: mbr_run_def mbr_globals_def mbr_final_def)

lemma mbr_sector0:
  "readSector 0x00000000 Scratch (mbr_machine s p e) =
     (SUCCESS, snd (readSector 0x00000000 Scratch (mbr_machine s p e)))"
proof -
  have "fst (readSector 0x00000000 Scratch (mbr_machine s p e)) = SUCCESS"
    by (rule readSector_prompt(1)) (simp_all add: mbr_machine_def block_card_def)
  then show ?thesis by (metis prod.collapse)
qed

lemma mbr_sector0_bytes:
  "sdCardSector (snd (readSector 0x00000000 Scratch (mbr_machine s p e))) 0x1be = s"
  "sdCardSector (snd (readSector 0x00000000 Scratch (mbr_machine s p e))) 0x1c2 = p"
  by (simp_all add: readSector_prompt mbr_machine_def block_card_def disk_image_def)

lemma parse_partition_fields:
  "first_byte (parse_partition f) = f 0x1be" "partition_type (parse_partition f) = f 0x1c2"
  by (simp_all add: parse_partition_def)

lemma mbr_run_16: "fst (mbr_run 0x80 6 16) = SUCCESS"
  by (simp add: mbr_eval)

lemma mbr_run_8: "fst (mbr_run 0x80 6 8) = SUCCESS"
  by (simp add: mbr_eval)

lemma mbr_start_sector: "start_sector (sdCardPartition (mbr_globals 0x80 6 16)) = 1"
  by (simp add: mbr_eval)

lemma mbr_run_16_eq:
  "spi_sdcard_readMBR 0x40000000 0x02000000 blank_globals (mbr_machine 0x80 6 16) =
     (SUCCESS, mbr_globals 0x80 6 16, mbr_final 0x80 6 16)"
  using mbr_run_collapse[of "0x80" 6 16] by (simp only: mbr_run_16)

lemma mbr_run_16_values:
  "rootDirSectorStart (mbr_globals 0x80 6 16) = 4"
  "fatSectorStart (mbr_globals 0x80 6 16) = 2"
  "sdCardFatTable (mbr_globals 0x80 6 16) = 0x41fffe00"
  "sdCardFat16RootDir (mbr_globals 0x80 6 16) = 0x41fffc00"
  "root_dir_entries (sdCardFatBootSector (mbr_globals 0x80 6 16)) = 16"
  "sector_size (sdCardFatBootSector (mbr_globals 0x80 6 16)) = 512"
  "unat (rootdir_sectors (mbr_globals 0x80 6 16)) = 1"
  "targets (sd_reads (mbr_final 0x80 6 16)) =
     [(0, Scratch), (1, Scratch), (2, Ram 0x41fffe00), (4, Ram 0x41fffc00)]"
  by (simp_all add: mbr_eval)

subsection \<open>Partition validation\<close>

text \<open>
  Claim C6. Once sector 0 has been read successfully, \<open>spi_sdcard_readMBR\<close> takes the
  partition descriptor from offset \<^verbatim>\<open>0x1be\<close> of the sector buffer (status byte at
  \<^verbatim>\<open>0x1be\<close>, type code at \<^verbatim>\<open>0x1c2\<close>). It goes on to send the read command for the boot
  sector if and only if the status byte is \<^verbatim>\<open>0x00\<close> or \<^verbatim>\<open>0x80\<close> and the type code is
  4, 6 or 14. With any other status byte or type code it returns \<open>FAILURE\<close> and the
  machine is left as the read of sector 0 left it: nothing more is sent to the card.
\<close>

theorem readMBR_partition_check:
  assumes mbr: "readSector 0x00000000 Scratch m = (SUCCESS, m1)"
    and run: "spi_sdcard_readMBR base sz g m = (r, g', m')"
  shows "sdCardPartition g' = parse_partition (sdCardSector m1) \<and>
         first_byte (sdCardPartition g') = sdCardSector m1 0x1be \<and>
         partition_type (sdCardPartition g') = sdCardSector m1 0x1c2 \<and>
         (((first_byte (sdCardPartition g') = 0x00 \<or> first_byte (sdCardPartition g') = 0x80) \<and>
           (partition_type (sdCardPartition g') = 4 \<or> partition_type (sdCardPartition g') = 6 \<or>
            partition_type (sdCardPartition g') = 14)) \<longleftrightarrow>
          (\<exists>t. trace (bus m') =
                 trace (bus m1) @ map Tx (cmd17 (start_sector (sdCardPartition g'))) @ t)) \<and>
         (\<not> ((first_byte (sdCardPartition g') = 0x00 \<or> first_byte (sdCardPartition g') = 0x80) \<and>
             (partition_type (sdCardPartition g') = 4 \<or> partition_type (sdCardPartition g') = 6 \<or>
              partition_type (sdCardPartition g') = 14)) \<longrightarrow>
          r = FAILURE \<and> m' = m1)"
proof -
  define g1 where "g1 = g\<lparr>sdCardPartition := parse_partition (sdCardSector m1)\<rparr>"
  let ?valid = "(first_byte (sdCardPartition g1) = 0x00 \<or> first_byte (sdCardPartition g1) = 0x80) \<and>
      (partition_type (sdCardPartition g1) = 4 \<or> partition_type (sdCardPartition g1) = 6 \<or>
       partition_type (sdCardPartition g1) = 14)"
  have fields: "first_byte (parse_partition (sdCardSector m1)) = sdCardSector m1 0x1be"
    "partition_type (parse_partition (sdCardSector m1)) = sdCardSector m1 0x1c2"
    by (simp_all add: parse_partition_def)
  show ?thesis
  proof (cases ?valid)
    case False
    with mbr run have res: "r = FAILURE" "g' = g1" "m' = m1"
      by (auto simp: spi_sdcard_readMBR_def Let_def g1_def split: if_splits)
    have "cmd17 (start_sector (sdCardPartition g')) \<noteq> []" by (simp add: cmd17_def)
    then have "\<not> (\<exists>t. trace (bus m') =
        trace (bus m1) @ map Tx (cmd17 (start_sector (sdCardPartition g'))) @ t)"
      by (simp add: res)
    with False res fields show ?thesis by (simp add: g1_def)
  next
    case True
    with mbr run have boot: "readMBR_bootsector base sz g1 m1 = (r, g', m')"
      by (auto simp: spi_sdcard_readMBR_def Let_def g1_def split: if_splits)
    have pt: "sdCardPartition g' = sdCardPartition g1"
      by (rule readMBR_bootsector_partition[OF boot])
    from readMBR_bootsector_trace[OF boot] have
      "\<exists>t. trace (bus m') = trace (bus m1) @ map Tx (cmd17 (start_sector (sdCardPartition g'))) @ t"
      unfolding pt .
    with True pt fields show ?thesis by (simp add: g1_def)
  qed
qed

theorem readMBR_partition_check_witness:
  "readSector 0x00000000 Scratch (mbr_machine 0x80 6 16) =
     (SUCCESS, snd (readSector 0x00000000 Scratch (mbr_machine 0x80 6 16))) \<and>
   first_byte (sdCardPartition (mbr_globals 0x80 6 16)) = 0x80 \<and>
   partition_type (sdCardPartition (mbr_globals 0x80 6 16)) = 6 \<and>
   (\<exists>t. trace (bus (mbr_final 0x80 6 16)) =
          trace (bus (snd (readSector 0x00000000 Scratch (mbr_machine 0x80 6 16)))) @
          map Tx (cmd17 1) @ t) \<and>
   readSector 0x00000000 Scratch (mbr_machine 0x80 11 16) =
     (SUCCESS, snd (readSector 0x00000000 Scratch (mbr_machine 0x80 11 16))) \<and>
   partition_type (sdCardPartition (mbr_globals 0x80 11 16)) = 11 \<and>
   fst (mbr_run 0x80 11 16) = FAILURE \<and>
   mbr_final 0x80 11 16 = snd (readSector 0x00000000 Scratch (mbr_machine 0x80 11 16)) \<and>
   readSector 0x00000000 Scratch (mbr_machine 0x55 6 16) =
     (SUCCESS, snd (readSector 0x00000000 Scratch (mbr_machine 0x55 6 16))) \<and>
   first_byte (sdCardPartition (mbr_globals 0x55 6 16)) = 0x55 \<and>
   fst (mbr_run 0x55 6 16) = FAILURE \<and>
   mbr_final 0x55 6 16 = snd (readSector 0x00000000 Scratch (mbr_machine 0x55 6 16))"
proof -
  note A = readMBR_partition_check[OF mbr_sector0 mbr_run_collapse, of "0x80" 6 16]
  note B = readMBR_partition_check[OF mbr_sector0 mbr_run_collapse, of "0x80" 11 16]
  note C = readMBR_partition_check[OF mbr_sector0 mbr_run_collapse, of "0x55" 6 16]
  from A have a: "first_byte (sdCardPartition (mbr_globals 0x80 6 16)) = 0x80"
    "partition_type (sdCardPartition (mbr_globals 0x80 6 16)) = 6"
    unfolding mbr_sector0_bytes by blast+
  from A have "((first_byte (sdCardPartition (mbr_globals 0x80 6 16)) = 0x00 \<or>
                 first_byte (sdCardPartition (mbr_globals 0x80 6 16)) = 0x80) \<and>
           (partition_type (sdCardPartition (mbr_globals 0x80 6 16)) = 4 \<or>
            partition_type (sdCardPartition (mbr_globals 0x80 6 16)) = 6 \<or>
            partition_type (sdCardPartition (mbr_globals 0x80 6 16)) = 14)) \<longleftrightarrow>
      (\<exists>t. trace (bus (mbr_final 0x80 6 16)) =
          trace (bus (snd (readSector 0x00000000 Scratch (mbr_machine 0x80 6 16)))) @
          map Tx (cmd17 (start_sector (sdCardPartition (mbr_globals 0x80 6 16)))) @ t)"
    by blast
  then have a3: "\<exists>t. trace (bus (mbr_final 0x80 6 16)) =
          trace (bus (snd (readSector 0x00000000 Scratch (mbr_machine 0x80 6 16)))) @
          map Tx (cmd17 1) @ t"
    unfolding a mbr_start_sector by simp
  from B have b: "partition_type (sdCardPartition (mbr_globals 0x80 11 16)) = 11"
    unfolding mbr_sector0_bytes by blast
  from B have "\<not> ((first_byte (sdCardPartition (mbr_globals 0x80 11 16)) = 0x00 \<or>
                 first_byte (sdCardPartition (mbr_globals 0x80 11 16)) = 0x80) \<and>
           (partition_type (sdCardPartition (mbr_globals 0x80 11 16)) = 4 \<or>
            partition_type (sdCardPartition (mbr_globals 0x80 11 16)) = 6 \<or>
            partition_type (sdCardPartition (mbr_globals 0x80 11 16)) = 14)) \<longrightarrow>
      fst (mbr_run 0x80 11 16) = FAILURE \<and>
      mbr_final 0x80 11 16 = snd (readSector 0x00000000 Scratch (mbr_machine 0x80 11 16))"
    by blast
  then have b2: "fst (mbr_run 0x80 11 16) = FAILURE"
    "mbr_final 0x80 11 16 = snd (readSector 0x00000000 Scratch (mbr_machine 0x80 11 16))"
    unfolding b by simp_all
  from C have c: "first_byte (sdCardPartition (mbr_globals 0x55 6 16)) = 0x55"
    unfolding mbr_sector0_bytes by blast
  from C have "\<not> ((first_byte (sdCardPartition (mbr_globals 0x55 6 16)) = 0x00 \<or>
                 first_byte (sdCardPartition (mbr_globals 0x55 6 16)) = 0x80) \<and>
           (partition_type (sdCardPartition (mbr_globals 0x55 6 16)) = 4 \<or>
            partition_type (sdCardPartition (mbr_globals 0x55 6 16)) = 6 \<or>
            partition_type (sdCardPartition (mbr_globals 0x55 6 16)) = 14)) \<longrightarrow>
      fst (mbr_run 0x55 6 16) = FAILURE \<and>
      mbr_final 0x55 6 16 = snd (readSector 0x00000000 Scratch (mbr_machine 0x55 6 16))"
    by blast
  then have c2: "fst (mbr_run 0x55 6 16) = FAILURE"
    "mbr_final 0x55 6 16 = snd (readSector 0x00000000 Scratch (mbr_machine 0x55 6 16))"
    unfolding c by simp_all
  show ?thesis
    using a a3 b b2 c c2 mbr_sector0 by (intro conjI)
qed

subsection \<open>Layout of the loaded metadata\<close>

text \<open>
  Claim C7, amended. When \<open>spi_sdcard_readMBR\<close> succeeds, the root directory starts at
  sector (partition start + reserved sectors + number of allocation tables \<times>
  allocation-table size in sectors); the directory buffer ends where the allocation-table
  buffer begins (its address plus root entry count \<times> 32 is the table's address); and the
  sectors read are sector 0, the boot sector, the allocation table, and then exactly
  \<open>\<lfloor>root entry count \<times> 32 / sector size\<rfloor>\<close> consecutive directory sectors, the \<open>k\<close>-th
  of them stored at the directory buffer plus \<open>k\<close> sector sizes. The count is the
  quotient rounded down, as in
  \<^verbatim>\<open>n<sdCardFatBootSector.root_dir_entries*sizeof(Fat16Entry)/sdCardFatBootSector.sector_size\<close>,
  not rounded up as the claim states.
\<close>

theorem readMBR_metadata_layout:
  assumes "spi_sdcard_readMBR base sz g m = (SUCCESS, g', m')"
  shows "rootDirSectorStart g' =
           start_sector (sdCardPartition g') + ucast (reserved_sectors (sdCardFatBootSector g'))
             + ucast (number_of_fats (sdCardFatBootSector g')) * ucast (fat_size_sectors (sdCardFatBootSector g')) \<and>
         sdCardFatTable g' =
           base + sz - ucast (sector_size (sdCardFatBootSector g')) * ucast (fat_size_sectors (sdCardFatBootSector g')) \<and>
         sdCardFat16RootDir g' + ucast (root_dir_entries (sdCardFatBootSector g')) * sizeof_Fat16Entry
           = sdCardFatTable g' \<and>
         sizeof_Fat16Entry = 32 \<and>
         sector_size (sdCardFatBootSector g') \<noteq> 0 \<and>
         unat (rootdir_sectors g') =
           unat (root_dir_entries (sdCardFatBootSector g')) * 32 div unat (sector_size (sdCardFatBootSector g')) \<and>
         targets (drop (length (sd_reads m)) (sd_reads m')) =
           (0, Scratch) # (start_sector (sdCardPartition g'), Scratch) #
           map (\<lambda>k. (fatSectorStart g' + of_nat k,
                     Ram (sdCardFatTable g' + ucast (sector_size (sdCardFatBootSector g')) * of_nat k)))
             [0..<unat (fat_size_sectors (sdCardFatBootSector g'))] @
           map (\<lambda>k. (rootDirSectorStart g' + of_nat k,
                     Ram (ucast (sector_size (sdCardFatBootSector g')) * of_nat k + sdCardFat16RootDir g')))
             [0..<unat (rootdir_sectors g')]"
  using assms by (rule readMBR_success_layout)

theorem readMBR_metadata_layout_witness:
  "spi_sdcard_readMBR 0x40000000 0x02000000 blank_globals (mbr_machine 0x80 6 16) =
     (SUCCESS, mbr_globals 0x80 6 16, mbr_final 0x80 6 16) \<and>
   (rootDirSectorStart (mbr_globals 0x80 6 16) =
           start_sector (sdCardPartition (mbr_globals 0x80 6 16)) + ucast (reserved_sectors (sdCardFatBootSector (mbr_globals 0x80 6 16)))
             + ucast (number_of_fats (sdCardFatBootSector (mbr_globals 0x80 6 16))) * ucast (fat_size_sectors (sdCardFatBootSector (mbr_globals 0x80 6 16))) \<and>
         sdCardFatTable (mbr_globals 0x80 6 16) =
           0x40000000 + 0x02000000 - ucast (sector_size (sdCardFatBootSector (mbr_globals 0x80 6 16))) * ucast (fat_size_sectors (sdCardFatBootSector (mbr_globals 0x80 6 16))) \<and>
         sdCardFat16RootDir (mbr_globals 0x80 6 16) + ucast (root_dir_entries (sdCardFatBootSector (mbr_globals 0x80 6 16))) * sizeof_Fat16Entry
           = sdCardFatTable (mbr_globals 0x80 6 16) \<and>
         sizeof_Fat16Entry = 32 \<and>
         sector_size (sdCardFatBootSector (mbr_globals 0x80 6 16)) \<noteq> 0 \<and>
         unat (rootdir_sectors (mbr_globals 0x80 6 16)) =
           unat (root_dir_entries (sdCardFatBootSector (mbr_globals 0x80 6 16))) * 32 div unat (sector_size (sdCardFatBootSector (mbr_globals 0x80 6 16))) \<and>
         targets (drop (length (sd_reads (mbr_machine 0x80 6 16))) (sd_reads (mbr_final 0x80 6 16))) =
           (0, Scratch) # (start_sector (sdCardPartition (mbr_globals 0x80 6 16)), Scratch) #
           map (\<lambda>k. (fatSectorStart (mbr_globals 0x80 6 16) + of_nat k,
                     Ram (sdCardFatTable (mbr_globals 0x80 6 16) + ucast (sector_size (sdCardFatBootSector (mbr_globals 0x80 6 16))) * of_nat k)))
             [0..<unat (fat_size_sectors (sdCardFatBootSector (mbr_globals 0x80 6 16)))] @
           map (\<lambda>k. (rootDirSectorStart (mbr_globals 0x80 6 16) + of_nat k,
                     Ram (ucast (sector_size (sdCardFatBootSector (mbr_globals 0x80 6 16))) * of_nat k + sdCardFat16RootDir (mbr_globals 0x80 6 16))))
             [0..<unat (rootdir_sectors (mbr_globals 0x80 6 16))])"
  using mbr_run_16_eq readMBR_metadata_layout[OF mbr_run_16_eq] by (rule conjI)

text \<open>Claim C7 as stated has the loader read \<open>\<lceil>root entry count \<times> 32 / sector size\<rceil>\<close>
  directory sectors. On a volume with 8 root directory entries and 512-byte sectors that
  is one sector, but the loader succeeds having read no directory sector at all: the read
  log holds sector 0, the boot sector and the one allocation-table sector, and the root
  directory, which starts at sector 4, is not among them.\<close>

theorem readMBR_rootdir_ceiling_counterexample:
  "fst (mbr_run 0x80 6 8) = SUCCESS \<and>
   root_dir_entries (sdCardFatBootSector (mbr_globals 0x80 6 8)) = 8 \<and>
   sector_size (sdCardFatBootSector (mbr_globals 0x80 6 8)) = 512 \<and>
   (unat (root_dir_entries (sdCardFatBootSector (mbr_globals 0x80 6 8))) * unat sizeof_Fat16Entry
      + unat (sector_size (sdCardFatBootSector (mbr_globals 0x80 6 8))) - 1)
     div unat (sector_size (sdCardFatBootSector (mbr_globals 0x80 6 8))) = 1 \<and>
   rootDirSectorStart (mbr_globals 0x80 6 8) = 4 \<and>
   targets (sd_reads (mbr_final 0x80 6 8)) =
     [(0, Scratch), (1, Scratch), (2, Ram 0x41fffe00)]"
  by (simp add: mbr_eval)

section \<open>Properties of the directory scan\<close>

lemma cmp_loop_eq:
  "cmp_loop field str i nameMatch =
     (if \<forall>j. i \<le> j \<and> j < strlen str \<longrightarrow> field j = str ! j then nameMatch else 0)"
proof (induction field str i nameMatch rule: cmp_loop.induct)
  case (1 field str i nameMatch)
  show ?case
  proof (cases "i < strlen str")
    case False
    then show ?thesis by (subst cmp_loop.simps) auto
  next
    case True
    have split: "(\<forall>j. i \<le> j \<and> j < strlen str \<longrightarrow> field j = str ! j) \<longleftrightarrow>
        field i = str ! i \<and> (\<forall>j. i + 1 \<le> j \<and> j < strlen str \<longrightarrow> field j = str ! j)"
      (is "?L \<longleftrightarrow> ?R")
    proof
      assume ?L
      with True show ?R by simp
    next
      assume r: ?R
      show ?L
      proof (intro allI impI)
        fix j assume j: "i \<le> j \<and> j < strlen str"
        show "field j = str ! j"
        proof (cases "j = i")
          case True
          with r show ?thesis by simp
        next
          case False
          with j have "i + 1 \<le> j" by simp
          with r j show ?thesis by blast
        qed
      qed
    qed
    have "cmp_loop field str i nameMatch =
        cmp_loop field str (i + 1) (if field i \<noteq> str ! i then 0 else nameMatch)"
      using True by (subst cmp_loop.simps) simp
    also have "\<dots> = (if \<forall>j. i + 1 \<le> j \<and> j < strlen str \<longrightarrow> field j = str ! j
        then (if field i \<noteq> str ! i then 0 else nameMatch) else 0)"
      by (rule "1.IH"[OF True])
    also have "\<dots> = (if \<forall>j. i \<le> j \<and> j < strlen str \<longrightarrow> field j = str ! j then nameMatch else 0)"
      unfolding split by (cases "field i = str ! i") auto
    finally show ?thesis .
  qed
qed

lemma name_match_iff:
  "name_match g m filename ext n = 1 \<longleftrightarrow>
     entry_filename g m n 0 \<noteq> 0 \<and>
     (\<forall>i < strlen filename. entry_filename g m n i = filename ! i) \<and>
     (\<forall>j < strlen ext. entry_ext g m n j = ext ! j)"
  by (auto simp: name_match_def cmp_loop_eq)

lemma dir_scan_skip:
  assumes "\<forall>k. a \<le> k \<and> k < b \<longrightarrow> name_match g m filename ext k \<noteq> 1"
    and "a \<le> b" "b \<le> unat (root_dir_entries (sdCardFatBootSector g))"
  shows "dir_scan g m filename ext (0, fl, a) = dir_scan g m filename ext (0, fl, b)"
  using assms
proof (induction "b - a" arbitrary: a)
  case 0
  then show ?case by simp
next
  case (Suc d)
  then have a: "a < b" "name_match g m filename ext a \<noteq> 1" by auto
  with Suc.prems have "dir_scan g m filename ext (0, fl, a) = dir_scan g m filename ext (0, fl, Suc a)"
    by (subst dir_scan.simps) (simp add: scan_step_def)
  also have "\<dots> = dir_scan g m filename ext (0, fl, b)"
    using Suc a by (intro Suc.hyps(1)) auto
  finally show ?case .
qed

lemma dir_scan_no_match:
  assumes "\<forall>k<unat (root_dir_entries (sdCardFatBootSector g)). name_match g m filename ext k \<noteq> 1"
  shows "dir_scan g m filename ext (0, fl, 0) =
         Some (0, fl, unat (root_dir_entries (sdCardFatBootSector g)))"
proof -
  have "dir_scan g m filename ext (0, fl, 0) =
        dir_scan g m filename ext (0, fl, unat (root_dir_entries (sdCardFatBootSector g)))"
    using assms by (intro dir_scan_skip) auto
  also have "\<dots> = Some (0, fl, unat (root_dir_entries (sdCardFatBootSector g)))"
    by (subst dir_scan.simps) simp
  finally show ?thesis .
qed

lemma dir_scan_first_match:
  assumes "n < unat (root_dir_entries (sdCardFatBootSector g))"
    and "name_match g m filename ext n = 1"
    and "\<forall>k<n. name_match g m filename ext k \<noteq> 1"
    and "entry_starting_cluster g m n \<noteq> 0"
  shows "dir_scan g m filename ext (0, fl, 0) =
         Some (entry_starting_cluster g m n, entry_file_size g m n, n)"
proof -
  have "dir_scan g m filename ext (0, fl, 0) = dir_scan g m filename ext (0, fl, n)"
    using assms by (intro dir_scan_skip) auto
  also have "\<dots> = dir_scan g m filename ext (entry_starting_cluster g m n, entry_file_size g m n, n)"
    using assms by (subst dir_scan.simps) (simp add: scan_step_def)
  also have "\<dots> = Some (entry_starting_cluster g m n, entry_file_size g m n, n)"
    using assms by (subst dir_scan.simps) simp
  finally show ?thesis .
qed

lemma dir_scan_stuck:
  assumes n: "n < unat (root_dir_entries (sdCardFatBootSector g))"
    and match: "name_match g m filename ext n = 1"
    and zero: "entry_starting_cluster g m n = 0"
  shows "dir_scan g m filename ext (0, fl, n) = None"
proof (rule ccontr)
  assume "dir_scan g m filename ext (0, fl, n) \<noteq> None"
  then obtain y where y: "dir_scan g m filename ext (0, fl, n) = Some y" by auto
  define P where "P = (\<lambda>g' m' filename' ext' (x :: u16 \<times> u32 \<times> nat) (y' :: u16 \<times> u32 \<times> nat).
      \<not> (g' = g \<and> m' = m \<and> filename' = filename \<and> ext' = ext \<and> fst x = 0 \<and> snd (snd x) = n))"
  have step: "P g' m' filename' ext' x y'"
    if IH: "\<And>g' m' filename' ext' x y'. ds g' m' filename' ext' x = Some y' \<Longrightarrow> P g' m' filename' ext' x y'"
      and body: "(if fst x = 0 \<and> snd (snd x) < unat (root_dir_entries (sdCardFatBootSector g'))
           then ds g' m' filename' ext' (scan_step g' m' filename' ext' x) else Some x) = Some y'"
    for ds g' m' filename' ext' x y'
    unfolding P_def
  proof
    assume st: "g' = g \<and> m' = m \<and> filename' = filename \<and> ext' = ext \<and> fst x = 0 \<and> snd (snd x) = n"
    then obtain fl' where x: "x = (0, fl', n)" by (cases x) auto
    with st n match zero body
    have "ds g m filename ext (0, entry_file_size g m n, n) = Some y'"
      by (simp add: scan_step_def)
    from IH[OF this] show False by (simp add: P_def)
  qed
  have "P g m filename ext (0, fl, n) y"
  proof (rule dir_scan.raw_induct[where P = P and xa = "((((g, m), filename), ext), (0, fl, n))"
        and y = y, simplified], goal_cases)
    case (1 ds g' m' filename' ext' x y')
    from 1(1) 1(2) show ?case by (rule step)
  next
    case 2
    show ?case by (rule y)
  qed
  then show False by (simp add: P_def)
qed


lemma first_match_exists:
  assumes "k < e" "name_match g m filename ext k = 1"
  shows "\<exists>n<e. name_match g m filename ext n = 1 \<and> (\<forall>j<n. name_match g m filename ext j \<noteq> 1)"
proof -
  define P where "P = (\<lambda>n. n < e \<and> name_match g m filename ext n = 1)"
  from assms have "\<exists>n. P n" by (auto simp: P_def)
  then obtain n where n: "P n" "\<forall>j<n. \<not> P j"
    using exists_least_iff[of P] by blast
  have "\<forall>j<n. name_match g m filename ext j \<noteq> 1"
  proof (intro allI impI)
    fix j assume "j < n"
    with n have "\<not> P j" "j < e" by (auto simp: P_def)
    then show "name_match g m filename ext j \<noteq> 1" by (simp add: P_def)
  qed
  with n(1) show ?thesis by (auto simp: P_def)
qed

lemma scan_stays:
  assumes match: "name_match g m filename ext n = 1"
    and first: "\<forall>j<n. name_match g m filename ext j \<noteq> 1"
    and zero: "entry_starting_cluster g m n = 0"
  shows "fst ((scan_step g m filename ext ^^ k) (0, 0, 0)) = 0 \<and>
         snd (snd ((scan_step g m filename ext ^^ k) (0, 0, 0))) \<le> n"
proof (induction k)
  case 0
  then show ?case by simp
next
  case (Suc k)
  obtain c fl j where x: "(scan_step g m filename ext ^^ k) (0, 0, 0) = (c, fl, j)"
    by (cases "(scan_step g m filename ext ^^ k) (0, 0, 0)") auto
  with Suc have c: "c = 0" "j \<le> n" by simp_all
  have nxt: "(scan_step g m filename ext ^^ Suc k) (0, 0, 0) = scan_step g m filename ext (c, fl, j)"
    using x by simp
  show ?case
  proof (cases "name_match g m filename ext j = 1")
    case True
    with first c have "j = n" by (cases "j < n") auto
    with True zero show ?thesis unfolding nxt by (simp add: scan_step_def)
  next
    case False
    with match c have "j < n" by (cases "j = n") auto
    with False c show ?thesis unfolding nxt by (simp add: scan_step_def)
  qed
qed

subsection \<open>A sample file system\<close>

text \<open>The geometry of the spec's round-trip scenario: 512-byte sectors, 4 sectors per
  cluster, 1 reserved sector, 2 allocation tables of 1 sector, 16 root directory entries.
  \<open>sample_machine entry blocks\<close> has \<open>entry\<close> as directory entry 0, all other entries
  unused, and the card \<open>block_card blocks\<close>. \<open>hello_entry\<close> is \<^verbatim>\<open>HELLO   TXT\<close> at cluster 2
  with 10 bytes; \<open>empty_entry\<close> is the zero-length file \<^verbatim>\<open>EMPTY   TXT\<close>, which owns no
  cluster.\<close>

definition sample_globals :: globals where
  "sample_globals =
     \<lparr>sdCardPartition =
        \<lparr>first_byte = 0x00, start_chs = [0, 0, 0], partition_type = 6, end_chs = [0, 0, 0],
         start_sector = 0, length_sectors = 1000\<rparr>,
      sdCardFatBootSector =
        \<lparr>sector_size = 512, sectors_per_cluster = 4, reserved_sectors = 1, number_of_fats = 2,
         root_dir_entries = 16, total_sectors_short = 0, media_descriptor = 0xf8,
         fat_size_sectors = 1, sectors_per_track = 0, number_of_heads = 0, hidden_sectors = 0,
         total_sectors_long = 1000\<rparr>,
      sdCardFat16RootDir = 0x10000,
      sdCardFatTable = 0x10200,
      fatSectorStart = 1,
      rootDirSectorStart = 3\<rparr>"

definition dir_entry :: "u8 list \<Rightarrow> u8 list \<Rightarrow> u16 \<Rightarrow> u32 \<Rightarrow> u8 list" where
  "dir_entry name ext cluster len =
     name @ ext @ replicate 15 0 @
     [ucast cluster, ucast (drop_bit 8 cluster),
      ucast len, ucast (drop_bit 8 len), ucast (drop_bit 16 len), ucast (drop_bit 24 len)]"

definition sample_machine :: "u8 list \<Rightarrow> (nat \<Rightarrow> nat \<Rightarrow> u8) \<Rightarrow> machine" where
  "sample_machine entry blocks =
     \<lparr>bus = spi0 (block_card blocks), ram = store_bytes 0x10000 entry (\<lambda>a. 0),
      sdCardSector = (\<lambda>n. 0), sd_reads = []\<rparr>"

definition hello_entry :: "u8 list" where
  "hello_entry = dir_entry [0x48, 0x45, 0x4c, 0x4c, 0x4f, 0x20, 0x20, 0x20] [0x54, 0x58, 0x54] 2 10"

definition empty_entry :: "u8 list" where
  "empty_entry = dir_entry [0x45, 0x4d, 0x50, 0x54, 0x59, 0x20, 0x20, 0x20] [0x54, 0x58, 0x54] 0 0"

lemma sample_machine_sel [simp]:
  "bus (sample_machine e b) = spi0 (block_card b)"
  "ram (sample_machine e b) = store_bytes 0x10000 e (\<lambda>a. 0)"
  "sdCardSector (sample_machine e b) = (\<lambda>n. 0)"
  "sd_reads (sample_machine e b) = []"
  by (simp_all add: sample_machine_def)

lemma sample_globals_sel [simp]:
  "sdCardFat16RootDir sample_globals = 0x10000"
  "sdCardFatTable sample_globals = 0x10200"
  "rootDirSectorStart sample_globals = 3"
  "sector_size (sdCardFatBootSector sample_globals) = 512"
  "sectors_per_cluster (sdCardFatBootSector sample_globals) = 4"
  "root_dir_entries (sdCardFatBootSector sample_globals) = 16"
  by (simp_all add: sample_globals_def)

lemma unat_entry_offset:
  assumes "n < 16" "off < 32"
  shows "unat (sizeof_Fat16Entry * of_nat n + of_nat off :: u32) = 32 * n + off"
proof -
  have "(sizeof_Fat16Entry * of_nat n + of_nat off :: u32) = of_nat (32 * n + off)"
    by (simp add: sizeof_Fat16Entry_def)
  moreover have "unat (of_nat (32 * n + off) :: u32) = 32 * n + off"
    using assms by (subst unat_of_nat) simp
  ultimately show ?thesis by (simp only:)
qed

lemma sample_entry_bytes:
  assumes "length e = 32" "n < 16" "off < 32"
  shows "entry_bytes sample_globals (sample_machine e b) n off = (if n = 0 then e ! off else 0)"
proof -
  have "entry_bytes sample_globals (sample_machine e b) n off =
      (if 32 * n + off < 32 then e ! (32 * n + off) else 0)"
    using assms(1) unat_entry_offset[OF assms(2,3)]
    by (simp add: entry_bytes_def store_bytes_value)
  then show ?thesis using assms by (cases "n = 0") simp_all
qed

lemma take_eq_nth:
  "n \<le> length xs \<Longrightarrow> n \<le> length ys \<Longrightarrow> (\<forall>i<n. xs ! i = ys ! i) \<longleftrightarrow> take n xs = take n ys"
  by (auto simp: list_eq_iff_nth_eq)

lemma strlen_le: "strlen str \<le> length str"
  by (simp add: strlen_def length_takeWhile_le)

lemma sample_match:
  assumes e: "length e = 32" and fn: "strlen filename \<le> 8" and ext: "strlen ext \<le> 3"
  shows "name_match sample_globals (sample_machine e b) filename ext 0 = 1 \<longleftrightarrow>
     e ! 0 \<noteq> 0 \<and> take (strlen filename) e = take (strlen filename) filename \<and>
     take (strlen ext) (drop 8 e) = take (strlen ext) ext"
proof -
  have a: "(\<forall>i < strlen filename. entry_filename sample_globals (sample_machine e b) 0 i = filename ! i)
      \<longleftrightarrow> (\<forall>i < strlen filename. e ! i = filename ! i)"
    using fn e by (auto simp: entry_filename_def sample_entry_bytes)
  have b: "(\<forall>j < strlen ext. entry_ext sample_globals (sample_machine e b) 0 j = ext ! j)
      \<longleftrightarrow> (\<forall>j < strlen ext. drop 8 e ! j = ext ! j)"
    using ext e by (auto simp: entry_ext_def sample_entry_bytes)
  have c: "entry_filename sample_globals (sample_machine e b) 0 0 = e ! 0"
    using e by (simp add: entry_filename_def sample_entry_bytes)
  show ?thesis
    unfolding name_match_iff a b c
    using e fn ext strlen_le[of filename] strlen_le[of ext]
    by (simp add: take_eq_nth del: nth_drop)
qed

lemma sample_no_match:
  assumes "length e = 32" "0 < n" "n < 16"
  shows "name_match sample_globals (sample_machine e b) filename ext n \<noteq> 1"
  using assms by (simp add: name_match_def entry_filename_def sample_entry_bytes)

lemma sample_cluster_size:
  assumes "length e = 32"
  shows "entry_starting_cluster sample_globals (sample_machine e b) 0 = le16 (\<lambda>i. e ! i) 26"
    and "entry_file_size sample_globals (sample_machine e b) 0 = le32 (\<lambda>i. e ! i) 28"
  using assms
  by (simp_all add: entry_starting_cluster_def entry_file_size_def le16_def le32_def sample_entry_bytes)


definition name_HELLO :: "u8 list" where "name_HELLO = [0x48, 0x45, 0x4c, 0x4c, 0x4f]"
definition name_EMPTY :: "u8 list" where "name_EMPTY = [0x45, 0x4d, 0x50, 0x54, 0x59]"
definition name_HE :: "u8 list" where "name_HE = [0x48, 0x45]"
definition name_NOPE :: "u8 list" where "name_NOPE = [0x4e, 0x4f, 0x50, 0x45]"
definition ext_TXT :: "u8 list" where "ext_TXT = [0x54, 0x58, 0x54]"

lemma sample_lengths [simp]:
  "length hello_entry = 32" "length empty_entry = 32"
  "strlen name_HELLO = 5" "strlen name_EMPTY = 5" "strlen name_HE = 2" "strlen name_NOPE = 4"
  "strlen ext_TXT = 3"
  by (simp_all add: hello_entry_def empty_entry_def dir_entry_def strlen_def
      name_HELLO_def name_EMPTY_def name_HE_def name_NOPE_def ext_TXT_def)

lemma hello_matches:
  "name_match sample_globals (sample_machine hello_entry b) name_HELLO ext_TXT 0 = 1"
  "name_match sample_globals (sample_machine hello_entry b) name_HE ext_TXT 0 = 1"
  "name_match sample_globals (sample_machine hello_entry b) name_NOPE ext_TXT 0 \<noteq> 1"
  "name_match sample_globals (sample_machine empty_entry b) name_EMPTY ext_TXT 0 = 1"
  by (simp_all add: sample_match)
     (simp_all add: hello_entry_def empty_entry_def dir_entry_def
      name_HELLO_def name_EMPTY_def name_HE_def name_NOPE_def ext_TXT_def)

lemma hello_fields:
  "entry_starting_cluster sample_globals (sample_machine hello_entry b) 0 = 2"
  "entry_file_size sample_globals (sample_machine hello_entry b) 0 = 10"
  "entry_starting_cluster sample_globals (sample_machine empty_entry b) 0 = 0"
  "entry_file_size sample_globals (sample_machine empty_entry b) 0 = 0"
  by (simp_all add: sample_cluster_size)
     (simp_all add: hello_entry_def empty_entry_def dir_entry_def le16_def le32_def nth_append)

subsection \<open>Termination of the scan\<close>

text \<open>
  Claim C5. The directory scan, started as the source starts it, does not terminate
  (\<open>dir_scan\<close> is \<open>None\<close>) exactly when the first entry that matches the requested name and
  extension records starting cluster 0. In that case every pass through the loop body
  leaves \<open>fileClusterStart\<close> at 0 and the index at or below that entry. When the first
  matching entry has a nonzero starting cluster the scan ends there with that entry's
  cluster and size; when no entry matches it ends with \<open>fileClusterStart = 0\<close>, the
  file-not-found outcome.
\<close>

theorem dir_scan_termination:
  "(dir_scan g m filename ext (0, 0, 0) = None \<longleftrightarrow>
      (\<exists>n<unat (root_dir_entries (sdCardFatBootSector g)).
          name_match g m filename ext n = 1 \<and>
          (\<forall>j<n. name_match g m filename ext j \<noteq> 1) \<and>
          entry_starting_cluster g m n = 0)) \<and>
   (\<forall>n<unat (root_dir_entries (sdCardFatBootSector g)).
      name_match g m filename ext n = 1 \<and>
      (\<forall>j<n. name_match g m filename ext j \<noteq> 1) \<and>
      entry_starting_cluster g m n = 0 \<longrightarrow>
      (\<forall>k. fst ((scan_step g m filename ext ^^ k) (0, 0, 0)) = 0 \<and>
           snd (snd ((scan_step g m filename ext ^^ k) (0, 0, 0))) \<le> n)) \<and>
   (\<forall>n<unat (root_dir_entries (sdCardFatBootSector g)).
      name_match g m filename ext n = 1 \<and>
      (\<forall>j<n. name_match g m filename ext j \<noteq> 1) \<and>
      entry_starting_cluster g m n \<noteq> 0 \<longrightarrow>
      dir_scan g m filename ext (0, 0, 0) =
        Some (entry_starting_cluster g m n, entry_file_size g m n, n)) \<and>
   ((\<forall>n<unat (root_dir_entries (sdCardFatBootSector g)). name_match g m filename ext n \<noteq> 1) \<longrightarrow>
      dir_scan g m filename ext (0, 0, 0) =
        Some (0, 0, unat (root_dir_entries (sdCardFatBootSector g))))"
proof -
  let ?e = "unat (root_dir_entries (sdCardFatBootSector g))"
  let ?stuck = "\<exists>n<?e. name_match g m filename ext n = 1 \<and>
          (\<forall>j<n. name_match g m filename ext j \<noteq> 1) \<and> entry_starting_cluster g m n = 0"
  have none: "dir_scan g m filename ext (0, 0, 0) = None"
    if "n < ?e" "name_match g m filename ext n = 1"
      "\<forall>j<n. name_match g m filename ext j \<noteq> 1" "entry_starting_cluster g m n = 0" for n
  proof -
    have "dir_scan g m filename ext (0, 0, 0) = dir_scan g m filename ext (0, 0, n)"
      using that by (intro dir_scan_skip) auto
    with dir_scan_stuck[OF that(1,2,4)] show ?thesis by simp
  qed
  have some: "?stuck" if "dir_scan g m filename ext (0, 0, 0) = None"
  proof (rule ccontr)
    assume ns: "\<not> ?stuck"
    show False
    proof (cases "\<exists>k<?e. name_match g m filename ext k = 1")
      case False
      then have "dir_scan g m filename ext (0, 0, 0) = Some (0, 0, ?e)"
        by (intro dir_scan_no_match) auto
      with that show False by simp
    next
      case True
      then obtain k where "k < ?e" "name_match g m filename ext k = 1" by blast
      from first_match_exists[OF this] obtain n where n: "n < ?e"
        "name_match g m filename ext n = 1" "\<forall>j<n. name_match g m filename ext j \<noteq> 1"
        by blast
      with ns have "entry_starting_cluster g m n \<noteq> 0" by blast
      from dir_scan_first_match[OF n this] that show False by simp
    qed
  qed
  have iff: "dir_scan g m filename ext (0, 0, 0) = None \<longleftrightarrow> ?stuck"
    using none some by blast
  show ?thesis
    using iff scan_stays dir_scan_first_match dir_scan_no_match
    by (intro conjI allI impI) blast+
qed

theorem dir_scan_termination_witness:
  "dir_scan sample_globals (sample_machine empty_entry (\<lambda>k n. 0)) name_EMPTY ext_TXT (0, 0, 0) = None \<and>
   fst ((scan_step sample_globals (sample_machine empty_entry (\<lambda>k n. 0)) name_EMPTY ext_TXT ^^ 7) (0, 0, 0)) = 0 \<and>
   snd (snd ((scan_step sample_globals (sample_machine empty_entry (\<lambda>k n. 0)) name_EMPTY ext_TXT ^^ 7)
     (0, 0, 0))) \<le> 0 \<and>
   dir_scan sample_globals (sample_machine hello_entry (\<lambda>k n. 0)) name_HELLO ext_TXT (0, 0, 0)
     = Some (2, 10, 0) \<and>
   dir_scan sample_globals (sample_machine hello_entry (\<lambda>k n. 0)) name_NOPE ext_TXT (0, 0, 0)
     = Some (0, 0, 16)"
proof -
  let ?g = sample_globals
  let ?me = "sample_machine empty_entry (\<lambda>k n. 0)"
  let ?mh = "sample_machine hello_entry (\<lambda>k n. 0)"
  note T = dir_scan_termination
  have e16: "unat (root_dir_entries (sdCardFatBootSector ?g)) = 16" by simp
  have stuck: "(0::nat) < unat (root_dir_entries (sdCardFatBootSector ?g)) \<and>
      name_match ?g ?me name_EMPTY ext_TXT 0 = 1 \<and>
      (\<forall>j<0. name_match ?g ?me name_EMPTY ext_TXT j \<noteq> 1) \<and>
      entry_starting_cluster ?g ?me 0 = 0"
    by (simp add: hello_matches hello_fields)
  have found: "(0::nat) < unat (root_dir_entries (sdCardFatBootSector ?g)) \<and>
      name_match ?g ?mh name_HELLO ext_TXT 0 = 1 \<and>
      (\<forall>j<0. name_match ?g ?mh name_HELLO ext_TXT j \<noteq> 1) \<and>
      entry_starting_cluster ?g ?mh 0 \<noteq> 0"
    by (simp add: hello_matches hello_fields)
  have absent: "\<forall>n<unat (root_dir_entries (sdCardFatBootSector ?g)).
      name_match ?g ?mh name_NOPE ext_TXT n \<noteq> 1"
  proof (intro allI impI)
    fix n assume "n < unat (root_dir_entries (sdCardFatBootSector ?g))"
    then have "n < 16" by simp
    then show "name_match ?g ?mh name_NOPE ext_TXT n \<noteq> 1"
      by (cases "n = 0") (simp_all add: hello_matches sample_no_match)
  qed
  have a: "dir_scan ?g ?me name_EMPTY ext_TXT (0, 0, 0) = None"
    using T[of ?g ?me name_EMPTY ext_TXT] stuck by blast
  have b: "fst ((scan_step ?g ?me name_EMPTY ext_TXT ^^ 7) (0, 0, 0)) = 0 \<and>
      snd (snd ((scan_step ?g ?me name_EMPTY ext_TXT ^^ 7) (0, 0, 0))) \<le> 0"
    using T[of ?g ?me name_EMPTY ext_TXT] stuck by blast
  have c: "dir_scan ?g ?mh name_HELLO ext_TXT (0, 0, 0) =
      Some (entry_starting_cluster ?g ?mh 0, entry_file_size ?g ?mh 0, 0)"
    using T[of ?g ?mh name_HELLO ext_TXT] found by blast
  have d: "dir_scan ?g ?mh name_NOPE ext_TXT (0, 0, 0) =
      Some (0, 0, unat (root_dir_entries (sdCardFatBootSector ?g)))"
    using T[of ?g ?mh name_NOPE ext_TXT] absent by blast
  from a b c d show ?thesis by (simp add: hello_fields)
qed

subsection \<open>Name matching\<close>

lemma sample_dir_bytes:
  assumes "length es \<le> 512" "n < 16" "off < 32"
  shows "entry_bytes sample_globals (sample_machine es b) n off =
         (if 32 * n + off < length es then es ! (32 * n + off) else 0)"
proof -
  from assms(1) have "length es \<le> 2 ^ 32" by simp
  then show ?thesis
    using unat_entry_offset[OF assms(2,3)]
    by (simp add: entry_bytes_def store_bytes_value)
qed

text \<open>Directories with several entries: \<open>dir_three\<close> holds \<^verbatim>\<open>README  TXT\<close>,
  \<^verbatim>\<open>HELLO   TXT\<close> (cluster 2, 10 bytes) and \<^verbatim>\<open>HELP    TXT\<close> (cluster 5, 20 bytes) in that
  order; \<open>dir_two\<close> holds the zero-length \<^verbatim>\<open>HEAVY   TXT\<close> (cluster 0) followed by
  \<^verbatim>\<open>HELLO   TXT\<close>. The name \<^verbatim>\<open>HE\<close> is a prefix of HELLO, HELP and HEAVY.\<close>

definition readme_entry :: "u8 list" where
  "readme_entry = dir_entry [0x52, 0x45, 0x41, 0x44, 0x4d, 0x45, 0x20, 0x20] [0x54, 0x58, 0x54] 7 100"

definition help_entry :: "u8 list" where
  "help_entry = dir_entry [0x48, 0x45, 0x4c, 0x50, 0x20, 0x20, 0x20, 0x20] [0x54, 0x58, 0x54] 5 20"

definition heavy_entry :: "u8 list" where
  "heavy_entry = dir_entry [0x48, 0x45, 0x41, 0x56, 0x59, 0x20, 0x20, 0x20] [0x54, 0x58, 0x54] 0 0"

definition dir_three :: machine where
  "dir_three = sample_machine (readme_entry @ hello_entry @ help_entry) (\<lambda>k n. 0)"

definition dir_two :: machine where
  "dir_two = sample_machine (heavy_entry @ hello_entry) (\<lambda>k n. 0)"

lemmas dir_eval =
  name_match_def cmp_loop.simps entry_filename_def entry_ext_def entry_starting_cluster_def
  entry_file_size_def le16_def le32_def sample_dir_bytes dir_three_def dir_two_def
  readme_entry_def hello_entry_def help_entry_def heavy_entry_def dir_entry_def nth_append
  name_HE_def ext_TXT_def strlen_def

lemma dir_three_entries:
  "name_match sample_globals dir_three name_HE ext_TXT 0 \<noteq> 1"
  "name_match sample_globals dir_three name_HE ext_TXT 1 = 1"
  "name_match sample_globals dir_three name_HE ext_TXT 2 = 1"
  "entry_filename sample_globals dir_three 1 0 \<noteq> 0"
  "entry_starting_cluster sample_globals dir_three 1 = 2"
  "entry_file_size sample_globals dir_three 1 = 10"
  "entry_starting_cluster sample_globals dir_three 2 = 5"
  by (simp_all add: dir_eval)

lemma dir_two_entries:
  "name_match sample_globals dir_two name_HE ext_TXT 0 = 1"
  "name_match sample_globals dir_two name_HE ext_TXT 1 = 1"
  "entry_starting_cluster sample_globals dir_two 0 = 0"
  "entry_starting_cluster sample_globals dir_two 1 = 2"
  by (simp_all add: dir_eval)


lemma dir_scan_first:
  assumes "n < unat (root_dir_entries (sdCardFatBootSector g))"
    and "name_match g m filename ext n = 1"
    and "\<forall>k<n. name_match g m filename ext k \<noteq> 1"
  shows "dir_scan g m filename ext (0, 0, 0) =
         (if entry_starting_cluster g m n = 0 then None
          else Some (entry_starting_cluster g m n, entry_file_size g m n, n))"
proof (cases "entry_starting_cluster g m n = 0")
  case True
  have "dir_scan g m filename ext (0, 0, 0) = dir_scan g m filename ext (0, 0, n)"
    using assms by (intro dir_scan_skip) auto
  with dir_scan_stuck[OF assms(1,2) True] True show ?thesis by simp
next
  case False
  with dir_scan_first_match[OF assms False] show ?thesis by simp
qed

text \<open>
  Claim C3. An entry whose first name byte is nonzero matches (\<open>nameMatch = 1\<close>) if and
  only if its name agrees with the caller's name on every index below the caller's
  \<open>strlen\<close>, and its extension with the caller's extension likewise; nothing beyond the
  caller's strings is compared, so a shorter name matches every entry with that prefix.
  The first matching entry in directory order is the one \<open>spi_sdcard_readFile\<close> uses, and
  no later entry is ever used: when that entry records a nonzero starting cluster the scan
  ends there, and its size and starting cluster are the ones passed to the cluster loop;
  when it records starting cluster 0 the scan stays on it and the call does not return.
\<close>

theorem name_match_prefix_policy:
  "(entry_filename g m n 0 \<noteq> 0 \<longrightarrow>
      (name_match g m filename ext n = 1 \<longleftrightarrow>
         (\<forall>i < strlen filename. entry_filename g m n i = filename ! i) \<and>
         (\<forall>j < strlen ext. entry_ext g m n j = ext ! j))) \<and>
   (n < unat (root_dir_entries (sdCardFatBootSector g)) \<and>
    name_match g m filename ext n = 1 \<and>
    (\<forall>k<n. name_match g m filename ext k \<noteq> 1) \<longrightarrow>
      dir_scan g m filename ext (0, 0, 0) =
        (if entry_starting_cluster g m n = 0 then None
         else Some (entry_starting_cluster g m n, entry_file_size g m n, n)) \<and>
      spi_sdcard_readFile filename ext address g m =
        (if entry_starting_cluster g m n = 0 then None
         else Some (if entry_file_size g m n = 0 then (SUCCESS, m)
                    else cluster_loop g (entry_file_size g m n) 0
                           (entry_file_size g m n, address, entry_starting_cluster g m n, m))))"
proof (intro conjI impI)
  assume "entry_filename g m n 0 \<noteq> 0"
  then show "name_match g m filename ext n = 1 \<longleftrightarrow>
         (\<forall>i < strlen filename. entry_filename g m n i = filename ! i) \<and>
         (\<forall>j < strlen ext. entry_ext g m n j = ext ! j)"
    by (simp add: name_match_iff)
next
  assume a: "n < unat (root_dir_entries (sdCardFatBootSector g)) \<and>
    name_match g m filename ext n = 1 \<and>
    (\<forall>k<n. name_match g m filename ext k \<noteq> 1)"
  then have a1: "n < unat (root_dir_entries (sdCardFatBootSector g))"
    and a2: "name_match g m filename ext n = 1"
    and a3: "\<forall>k<n. name_match g m filename ext k \<noteq> 1"
    by blast+
  show scan: "dir_scan g m filename ext (0, 0, 0) =
        (if entry_starting_cluster g m n = 0 then None
         else Some (entry_starting_cluster g m n, entry_file_size g m n, n))"
    by (rule dir_scan_first[OF a1 a2 a3])
  show "spi_sdcard_readFile filename ext address g m =
        (if entry_starting_cluster g m n = 0 then None
         else Some (if entry_file_size g m n = 0 then (SUCCESS, m)
                    else cluster_loop g (entry_file_size g m n) 0
                           (entry_file_size g m n, address, entry_starting_cluster g m n, m)))"
    unfolding spi_sdcard_readFile_def scan by simp
qed

theorem name_match_prefix_policy_witness:
  "entry_filename sample_globals dir_three 1 0 \<noteq> 0 \<and>
   name_match sample_globals dir_three name_HE ext_TXT 0 \<noteq> 1 \<and>
   name_match sample_globals dir_three name_HE ext_TXT 1 = 1 \<and>
   name_match sample_globals dir_three name_HE ext_TXT 2 = 1 \<and>
   entry_starting_cluster sample_globals dir_three 2 = 5 \<and>
   dir_scan sample_globals dir_three name_HE ext_TXT (0, 0, 0) = Some (2, 10, 1) \<and>
   spi_sdcard_readFile name_HE ext_TXT 0 sample_globals dir_three =
     Some (cluster_loop sample_globals 10 0 (10, 0, 2, dir_three)) \<and>
   name_match sample_globals dir_two name_HE ext_TXT 0 = 1 \<and>
   entry_starting_cluster sample_globals dir_two 0 = 0 \<and>
   name_match sample_globals dir_two name_HE ext_TXT 1 = 1 \<and>
   entry_starting_cluster sample_globals dir_two 1 = 2 \<and>
   dir_scan sample_globals dir_two name_HE ext_TXT (0, 0, 0) = None \<and>
   spi_sdcard_readFile name_HE ext_TXT 0 sample_globals dir_two = None"
proof -
  let ?g = sample_globals
  have e: "(1::nat) < unat (root_dir_entries (sdCardFatBootSector ?g))"
    "(0::nat) < unat (root_dir_entries (sdCardFatBootSector ?g))"
    by simp_all
  have before: "\<forall>k<1. name_match ?g dir_three name_HE ext_TXT k \<noteq> 1"
  proof (intro allI impI)
    fix k :: nat assume "k < 1"
    then have "k = 0" by simp
    then show "name_match ?g dir_three name_HE ext_TXT k \<noteq> 1"
      by (simp only: dir_three_entries(1) not_False_eq_True)
  qed
  have none: "\<forall>k<0. name_match ?g dir_two name_HE ext_TXT k \<noteq> 1" by simp
  note A = name_match_prefix_policy[of ?g dir_three 1 name_HE ext_TXT 0, THEN conjunct2, rule_format,
      OF conjI[OF e(1) conjI[OF dir_three_entries(2) before]]]
  note B = name_match_prefix_policy[of ?g dir_two 0 name_HE ext_TXT 0, THEN conjunct2, rule_format,
      OF conjI[OF e(2) conjI[OF dir_two_entries(1) none]]]
  have a: "dir_scan ?g dir_three name_HE ext_TXT (0, 0, 0) = Some (2, 10, 1)"
    "spi_sdcard_readFile name_HE ext_TXT 0 ?g dir_three =
       Some (cluster_loop ?g 10 0 (10, 0, 2, dir_three))"
    using A unfolding dir_three_entries by simp_all
  have b: "dir_scan ?g dir_two name_HE ext_TXT (0, 0, 0) = None"
    "spi_sdcard_readFile name_HE ext_TXT 0 ?g dir_two = None"
    using B unfolding dir_two_entries by simp_all
  show ?thesis
    using a b dir_three_entries dir_two_entries by (intro conjI)
qed

subsection \<open>Zero-length files\<close>

text \<open>A matched entry of size zero with a nonzero starting cluster makes the call return
  \<open>SUCCESS\<close> with the machine untouched.\<close>

lemma spi_sdcard_readFile_zero_length:
  assumes "dir_scan g m filename ext (0, 0, 0) = Some (c, 0, n)" "c \<noteq> 0"
  shows "spi_sdcard_readFile filename ext address g m = Some (SUCCESS, m)"
  using assms by (simp add: spi_sdcard_readFile_def)

text \<open>
  Claim C4 says that for every matched entry of size zero the call returns success without
  reading a sector. A zero-length file owns no cluster, so its entry records starting
  cluster 0: for \<open>empty_entry\<close> the entry matches, its size is 0, and the call does not
  return, because the scan never leaves the entry (claim C5) and the test for a
  zero-length file after the scan is never reached.
\<close>

theorem spi_sdcard_readFile_empty_file_hangs:
  "name_match sample_globals (sample_machine empty_entry (\<lambda>k n. 0)) name_EMPTY ext_TXT 0 = 1 \<and>
   entry_file_size sample_globals (sample_machine empty_entry (\<lambda>k n. 0)) 0 = 0 \<and>
   entry_starting_cluster sample_globals (sample_machine empty_entry (\<lambda>k n. 0)) 0 = 0 \<and>
   spi_sdcard_readFile name_EMPTY ext_TXT 0 sample_globals (sample_machine empty_entry (\<lambda>k n. 0)) = None"
proof -
  have "dir_scan sample_globals (sample_machine empty_entry (\<lambda>k n. 0)) name_EMPTY ext_TXT (0, 0, 0) = None"
    by (rule dir_scan_stuck) (simp_all add: hello_matches hello_fields)
  then show ?thesis
    by (simp add: spi_sdcard_readFile_def hello_matches hello_fields)
qed

section \<open>Properties of the file loader\<close>

text \<open>The sector numbers, the destinations and the data of a list of logged reads.\<close>

definition read_sectors :: "(u32 \<times> storage \<times> u8 list) list \<Rightarrow> u32 list" where
  "read_sectors l = map fst l"

definition read_storages :: "(u32 \<times> storage \<times> u8 list) list \<Rightarrow> storage list" where
  "read_storages l = map (\<lambda>e. fst (snd e)) l"

definition read_data :: "(u32 \<times> storage \<times> u8 list) list \<Rightarrow> u8 list list" where
  "read_data l = map (\<lambda>e. snd (snd e)) l"

text \<open>
  The intended effect of loading a file on memory, stated over the sequence of blocks
  delivered by the card: with \<open>rem\<close> bytes of the file still to come, a block is stored
  whole and the destination moves on by one sector size while more than a sector remains;
  otherwise the first \<open>rem\<close> bytes of the block are stored and nothing more.
\<close>

fun stored_file :: "u32 \<Rightarrow> nat \<Rightarrow> nat \<Rightarrow> u8 list list \<Rightarrow> (u32 \<Rightarrow> u8) \<Rightarrow> (u32 \<Rightarrow> u8)" where
  "stored_file a ss rem [] mem = mem"
| "stored_file a ss rem (d # ds) mem =
     (if ss < rem then stored_file (a + of_nat ss) ss (rem - ss) ds (store_bytes a d mem)
      else store_bytes a (take rem d) mem)"

lemma read_proj_simps [simp]:
  "read_sectors [] = []" "read_sectors (l @ l') = read_sectors l @ read_sectors l'"
  "read_sectors ((s, p, d) # l) = s # read_sectors l"
  "read_storages [] = []" "read_storages (l @ l') = read_storages l @ read_storages l'"
  "read_storages ((s, p, d) # l) = p # read_storages l"
  "read_data [] = []" "read_data (l @ l') = read_data l @ read_data l'"
  "read_data ((s, p, d) # l) = d # read_data l"
  "length (read_sectors l) = length l" "length (read_storages l) = length l"
  "length (read_data l) = length l"
  by (simp_all add: read_sectors_def read_storages_def read_data_def)

lemma stored_file_snoc:
  "stored_file a ss rem (ds @ [d]) mem =
     (if ss * length ds < rem
      then (if ss < rem - ss * length ds
            then store_bytes (a + of_nat (ss * length ds)) d (stored_file a ss rem ds mem)
            else store_bytes (a + of_nat (ss * length ds)) (take (rem - ss * length ds) d)
                   (stored_file a ss rem ds mem))
      else stored_file a ss rem ds mem)"
proof (induction ds arbitrary: a rem mem)
  case Nil
  then show ?case by simp
next
  case (Cons x xs)
  show ?case
  proof (cases "ss < rem")
    case True
    have e: "a + of_nat ss + of_nat (ss * length xs) = (a + of_nat (ss + ss * length xs) :: u32)"
      by simp
    have c: "ss * length xs < rem - ss \<longleftrightarrow> ss + ss * length xs < rem" using True by auto
    have s: "rem - ss - ss * length xs = rem - (ss + ss * length xs)" by simp
    show ?thesis using True by (simp add: Cons.IH e c s del: of_nat_add of_nat_mult)
  next
    case False
    then have "\<not> ss + ss * length xs < rem" by simp
    with False show ?thesis by simp
  qed
qed

lemma stored_file_512:
  assumes "\<forall>d\<in>set ds. length d = 512"
  shows "stored_file a 512 rem ds mem = store_bytes a (take rem (concat ds)) mem"
  using assms
proof (induction ds arbitrary: a rem mem)
  case Nil
  then show ?case by simp
next
  case (Cons d ds)
  then have d: "length d = 512" and ds: "\<forall>d\<in>set ds. length d = 512" by simp_all
  show ?case
  proof (cases "512 < rem")
    case True
    have "stored_file a 512 rem (d # ds) mem =
        store_bytes (a + 512) (take (rem - 512) (concat ds)) (store_bytes a d mem)"
      using True Cons.IH[OF ds] by simp
    also have "\<dots> = store_bytes a (d @ take (rem - 512) (concat ds)) mem"
      by (simp add: store_bytes_append d)
    also have "d @ take (rem - 512) (concat ds) = take rem (concat (d # ds))"
      using True d by simp
    finally show ?thesis .
  next
    case False
    then show ?thesis using d by simp
  qed
qed

lemma stored_file_frame:
  assumes "\<forall>d\<in>set ds. length d = 512" and "rem + 512 \<le> unat (x - a)"
  shows "stored_file a ss rem ds mem x = mem x"
  using assms
proof (induction ds arbitrary: a rem mem)
  case Nil
  then show ?case by simp
next
  case (Cons d ds)
  then have d: "length d = 512" and ds: "\<forall>d\<in>set ds. length d = 512" by simp_all
  have far: "rem + 512 \<le> unat (x - a)" by (rule Cons.prems(2))
  show ?case
  proof (cases "ss < rem")
    case True
    have lt: "unat (x - a) < 2 ^ 32" using unsigned_less[of "x - a"] by simp
    with True far have ss: "ss < 2 ^ 32" by simp
    then have us: "unat (of_nat ss :: u32) = ss" by (subst unat_of_nat) simp
    have le: "(of_nat ss :: u32) \<le> x - a"
      using True far by (simp add: word_le_nat_alt us)
    have e: "x - (a + of_nat ss) = (x - a) - of_nat ss" by simp
    have "unat (x - (a + of_nat ss)) = unat (x - a) - ss"
      by (simp only: e unat_sub[OF le] us)
    with True far have "(rem - ss) + 512 \<le> unat (x - (a + of_nat ss))" by simp
    from Cons.IH[OF ds this]
    have "stored_file (a + of_nat ss) ss (rem - ss) ds (store_bytes a d mem) x =
        store_bytes a d mem x" .
    also have "\<dots> = mem x" using far d by (simp add: store_bytes_value)
    finally show ?thesis using True by simp
  next
    case False
    then show ?thesis using far d by (simp add: store_bytes_value)
  qed
qed


text \<open>The invariant of the two loops of \<^verbatim>\<open>spi_sdcard_readFile\<close>, for a file of \<open>L\<close> bytes
  loaded to \<open>address\<close> from the machine state \<open>m0\<close>, after the reads \<open>P\<close>.\<close>

definition file_inv ::
  "nat \<Rightarrow> nat \<Rightarrow> u32 \<Rightarrow> machine \<Rightarrow> (u32 \<times> storage \<times> u8 list) list \<Rightarrow> u32 \<Rightarrow> u32 \<Rightarrow> machine \<Rightarrow> bool" where
  "file_inv ss L address m0 P br addr m \<longleftrightarrow>
     sd_reads m = sd_reads m0 @ P \<and>
     (\<forall>d\<in>set (read_data P). length d = 512) \<and>
     unat br = L - ss * length P \<and>
     addr = address + of_nat (ss * min (length P) ((L - 1) div ss)) \<and>
     read_storages P =
       map (\<lambda>j. if j < (L - 1) div ss then Ram (address + of_nat (ss * j)) else Scratch)
         [0..<length P] \<and>
     ram m = stored_file address ss L (read_data P) (ram m0)"

lemma direct_index:
  fixes ss L k :: nat
  assumes "0 < ss" "ss < L - ss * k"
  shows "k < (L - 1) div ss"
proof -
  from assms have "Suc k * ss \<le> L - 1" by (simp add: algebra_simps)
  then have "Suc k \<le> (L - 1) div ss"
    using assms(1) by (simp only: less_eq_div_iff_mult_less_eq)
  then show ?thesis by simp
qed

lemma final_index:
  fixes ss L k :: nat
  assumes "0 < ss" "\<not> ss < L - ss * k"
  shows "(L - 1) div ss \<le> k"
proof -
  from assms have "L - 1 < Suc k * ss" by (simp add: algebra_simps)
  then have "(L - 1) div ss < Suc k"
    using assms(1) by (simp only: div_less_iff_less_mult)
  then show ?thesis by simp
qed

lemma memcpy_sector_sel [simp]:
  "sd_reads (memcpy_sector a n m) = sd_reads m"
  "bus (memcpy_sector a n m) = bus m"
  "sdCardSector (memcpy_sector a n m) = sdCardSector m"
  "ram (memcpy_sector a n m) = store_bytes a (map (sdCardSector m) [0..<n]) (ram m)"
  by (simp_all add: memcpy_sector_def)

lemma scratch_prefix:
  assumes "length d = 512" "n \<le> 512"
  shows "map (\<lambda>k. if k < 512 then d ! k else f k) [0..<n] = take n d"
  using assms by (intro nth_equalityI) simp_all

lemma file_inv_direct:
  assumes inv: "file_inv ss L A m0 P br addr m"
    and ss: "ss = unat (ssw :: u16)" "0 < ss"
    and gt: "ucast ssw < br"
    and rd: "readSector sec (Ram addr) m = (r, m')" "r \<noteq> FAILURE"
  shows "\<exists>d. file_inv ss L A m0 (P @ [(sec, Ram addr, d)]) (br - ucast ssw) (addr + ucast ssw) m'"
proof -
  from readSector_result[OF rd(1)] rd(2) obtain d where
    d: "length d = 512" "ram m' = store_bytes addr d (ram m)"
      "sd_reads m' = sd_reads m @ [(sec, Ram addr, d)]"
    by auto
  let ?k = "length P"
  let ?q = "(L - 1) div ss"
  have us: "unat (ucast ssw :: u32) = ss" by (simp add: ss(1) unat_ucast_up)
  from inv have br: "unat br = L - ss * ?k"
    and addr: "addr = A + of_nat (ss * min ?k ?q)"
    and st: "read_storages P =
       map (\<lambda>j. if j < ?q then Ram (A + of_nat (ss * j)) else Scratch) [0..<?k]"
    and mem: "ram m = stored_file A ss L (read_data P) (ram m0)"
    and log: "sd_reads m = sd_reads m0 @ P"
    and len: "\<forall>d\<in>set (read_data P). length d = 512"
    by (simp_all add: file_inv_def)
  from gt have lt: "ss < L - ss * ?k" by (simp add: word_less_nat_alt us br)
  have kq: "?k < ?q" by (rule direct_index[OF ss(2) lt])
  then have mins: "min ?k ?q = ?k" "min (Suc ?k) ?q = Suc ?k" by simp_all
  have ofs: "(ucast ssw :: u32) = of_nat ss" by (simp add: ss(1))
  have a0: "addr = A + of_nat (ss * ?k)" using addr by (simp only: mins)
  have a1: "addr + ucast ssw = A + of_nat (ss * min (length (P @ [(sec, Ram addr, d)])) ?q)"
    using mins by (simp add: a0 ofs)
  have b1: "unat (br - ucast ssw) = L - ss * length (P @ [(sec, Ram addr, d)])"
  proof -
    have "ucast ssw \<le> br" using gt by simp
    then have "unat (br - ucast ssw) = unat br - ss" by (simp add: unat_sub us)
    then show ?thesis by (simp add: br)
  qed
  have s1: "read_storages (P @ [(sec, Ram addr, d)]) =
       map (\<lambda>j. if j < ?q then Ram (A + of_nat (ss * j)) else Scratch)
         [0..<length (P @ [(sec, Ram addr, d)])]"
    using kq by (simp add: st a0)
  have m1: "ram m' = stored_file A ss L (read_data (P @ [(sec, Ram addr, d)])) (ram m0)"
  proof -
    from lt have c: "ss * length (read_data P) < L" "ss < L - ss * length (read_data P)" by simp_all
    show ?thesis
      unfolding read_proj_simps stored_file_snoc
      using c by (simp add: d(2) mem a0)
  qed
  have "file_inv ss L A m0 (P @ [(sec, Ram addr, d)]) (br - ucast ssw) (addr + ucast ssw) m'"
    unfolding file_inv_def
    using a1 b1 s1 m1 len d(1) by (simp add: d(3) log)
  then show ?thesis ..
qed

lemma file_inv_scratch:
  assumes inv: "file_inv ss L A m0 P br addr m"
    and ss: "ss = unat (ssw :: u16)" "0 < ss"
    and le: "\<not> ucast ssw < br"
    and rd: "readSector sec Scratch m = (r, m')" "r \<noteq> FAILURE"
    and nf: "\<not> 512 < unat br"
  shows "\<exists>d. file_inv ss L A m0 (P @ [(sec, Scratch, d)]) 0 addr (memcpy_sector addr (unat br) m')"
proof -
  from readSector_result[OF rd(1)] rd(2) obtain d where
    d: "length d = 512" "ram m' = ram m"
      "sdCardSector m' = (\<lambda>k. if k < 512 then d ! k else sdCardSector m k)"
      "sd_reads m' = sd_reads m @ [(sec, Scratch, d)]"
    by auto
  let ?k = "length P"
  let ?q = "(L - 1) div ss"
  have us: "unat (ucast ssw :: u32) = ss" by (simp add: ss(1) unat_ucast_up)
  from inv have br: "unat br = L - ss * ?k"
    and addr: "addr = A + of_nat (ss * min ?k ?q)"
    and st: "read_storages P =
       map (\<lambda>j. if j < ?q then Ram (A + of_nat (ss * j)) else Scratch) [0..<?k]"
    and mem: "ram m = stored_file A ss L (read_data P) (ram m0)"
    and log: "sd_reads m = sd_reads m0 @ P"
    and len: "\<forall>d\<in>set (read_data P). length d = 512"
    by (simp_all add: file_inv_def)
  from le have nlt: "\<not> ss < L - ss * ?k" by (simp add: word_less_nat_alt us br)
  have qk: "?q \<le> ?k" by (rule final_index[OF ss(2) nlt])
  then have mins: "min (Suc ?k) ?q = min ?k ?q" by simp
  have copy: "map (sdCardSector m') [0..<unat br] = take (unat br) d"
    unfolding d(3) using d(1) nf by (intro scratch_prefix) simp_all
  have a1: "addr = A + of_nat (ss * min (length (P @ [(sec, Scratch, d)])) ?q)"
    using addr mins by simp
  have b1: "unat (0 :: u32) = L - ss * length (P @ [(sec, Scratch, d)])"
    using nlt by simp
  have s1: "read_storages (P @ [(sec, Scratch, d)]) =
       map (\<lambda>j. if j < ?q then Ram (A + of_nat (ss * j)) else Scratch)
         [0..<length (P @ [(sec, Scratch, d)])]"
    using qk by (simp add: st)
  have m1: "ram (memcpy_sector addr (unat br) m') =
      stored_file A ss L (read_data (P @ [(sec, Scratch, d)])) (ram m0)"
  proof (cases "ss * ?k < L")
    case True
    then have "?k * ss \<le> L - 1" by (simp add: algebra_simps)
    then have "?k \<le> ?q"
      using ss(2) by (simp only: less_eq_div_iff_mult_less_eq)
    with qk have "min ?k ?q = ?k" by simp
    with addr have a0: "addr = A + of_nat (ss * ?k)" by simp
    from True nlt have c: "ss * length (read_data P) < L" "\<not> ss < L - ss * length (read_data P)"
      by simp_all
    show ?thesis
      unfolding read_proj_simps stored_file_snoc
      using c by (simp add: copy[unfolded br] d(2) mem a0 br)
  next
    case False
    then have z: "unat br = 0" by (simp add: br)
    from False have c: "\<not> ss * length (read_data P) < L" by simp
    show ?thesis
      unfolding read_proj_simps stored_file_snoc
      using c by (simp add: z d(2) mem)
  qed
  have "file_inv ss L A m0 (P @ [(sec, Scratch, d)]) 0 addr (memcpy_sector addr (unat br) m')"
    unfolding file_inv_def
    using a1 b1 s1 m1 len d(1) by (simp add: d(4) log)
  then show ?thesis ..
qed


lemma sector_loop_inv:
  assumes run: "sector_loop g css s (br, addr, m) = (SUCCESS, br', addr', m')"
    and inv: "file_inv ss L A m0 P br addr m"
    and ss: "ss = unat (sector_size (sdCardFatBootSector g))" "0 < ss"
    and s: "s \<le> unat (sectors_per_cluster (sdCardFatBootSector g))"
  shows "\<exists>P'. length P' = unat (sectors_per_cluster (sdCardFatBootSector g)) - s \<and>
           read_sectors P' =
             map (\<lambda>j. css + of_nat j) [s..<unat (sectors_per_cluster (sdCardFatBootSector g))] \<and>
           file_inv ss L A m0 (P @ P') br' addr' m'"
  using run inv s
proof (induction "unat (sectors_per_cluster (sdCardFatBootSector g)) - s" arbitrary: s br addr m P)
  case 0
  then have "\<not> s < unat (sectors_per_cluster (sdCardFatBootSector g))" by simp
  with "0.prems"(1) have "br' = br" "addr' = addr" "m' = m"
    by (simp_all add: sector_loop.simps)
  with "0.prems"(2) "0.hyps" show ?case by simp
next
  case (Suc n)
  let ?spc = "unat (sectors_per_cluster (sdCardFatBootSector g))"
  let ?ssw = "sector_size (sdCardFatBootSector g)"
  from Suc.hyps(2) have lt: "s < ?spc" by simp
  then have n: "n = ?spc - Suc s" and le: "Suc s \<le> ?spc" using Suc.hyps(2) by simp_all
  have up: "[s..<?spc] = s # [Suc s..<?spc]" using lt by (simp add: upt_conv_Cons)
  show ?case
  proof (cases "ucast ?ssw < br")
    case True
    obtain r m1 where rd: "readSector (css + of_nat s) (Ram addr) m = (r, m1)" by force
    from Suc.prems(1) lt True rd have nf: "r \<noteq> FAILURE"
      by (subst (asm) sector_loop.simps) (auto split: if_splits)
    from Suc.prems(1) lt True rd nf
    have run': "sector_loop g css (Suc s) (br - ucast ?ssw, addr + ucast ?ssw, m1) =
        (SUCCESS, br', addr', m')"
      by (subst (asm) sector_loop.simps) simp
    from file_inv_direct[OF Suc.prems(2) ss True rd nf] obtain d where
      inv': "file_inv ss L A m0 (P @ [(css + of_nat s, Ram addr, d)])
               (br - ucast ?ssw) (addr + ucast ?ssw) m1" ..
    from Suc.hyps(1)[OF n run' inv' le] obtain P' where
      P': "length P' = ?spc - Suc s"
        "read_sectors P' = map (\<lambda>j. css + of_nat j) [Suc s..<?spc]"
        "file_inv ss L A m0 ((P @ [(css + of_nat s, Ram addr, d)]) @ P') br' addr' m'"
      by blast
    have "length ((css + of_nat s, Ram addr, d) # P') = ?spc - s" using P'(1) lt by simp
    moreover have "read_sectors ((css + of_nat s, Ram addr, d) # P') =
        map (\<lambda>j. css + of_nat j) [s..<?spc]"
      unfolding up using P'(2) by simp
    moreover have "file_inv ss L A m0 (P @ (css + of_nat s, Ram addr, d) # P') br' addr' m'"
      using P'(3) by simp
    ultimately show ?thesis by blast
  next
    case False
    obtain r m1 where rd: "readSector (css + of_nat s) Scratch m = (r, m1)" by force
    from Suc.prems(1) lt False rd have nf: "r \<noteq> FAILURE" and fit: "\<not> 512 < unat br"
      by (subst (asm) sector_loop.simps; auto split: if_splits)+
    from Suc.prems(1) lt False rd nf fit
    have run': "sector_loop g css (Suc s) (0, addr, memcpy_sector addr (unat br) m1) =
        (SUCCESS, br', addr', m')"
      by (subst (asm) sector_loop.simps) simp
    from file_inv_scratch[OF Suc.prems(2) ss False rd nf fit] obtain d where
      inv': "file_inv ss L A m0 (P @ [(css + of_nat s, Scratch, d)])
               0 addr (memcpy_sector addr (unat br) m1)" ..
    from Suc.hyps(1)[OF n run' inv' le] obtain P' where
      P': "length P' = ?spc - Suc s"
        "read_sectors P' = map (\<lambda>j. css + of_nat j) [Suc s..<?spc]"
        "file_inv ss L A m0 ((P @ [(css + of_nat s, Scratch, d)]) @ P') br' addr' m'"
      by blast
    have "length ((css + of_nat s, Scratch, d) # P') = ?spc - s" using P'(1) lt by simp
    moreover have "read_sectors ((css + of_nat s, Scratch, d) # P') =
        map (\<lambda>j. css + of_nat j) [s..<?spc]"
      unfolding up using P'(2) by simp
    moreover have "file_inv ss L A m0 (P @ (css + of_nat s, Scratch, d) # P') br' addr' m'"
      using P'(3) by simp
    ultimately show ?thesis by blast
  qed
qed


lemma fat_entry_frame:
  assumes "\<forall>k<2. ram m1 (sdCardFatTable g + 2 * ucast c + of_nat k) =
                 ram m0 (sdCardFatTable g + 2 * ucast c + of_nat k)"
  shows "fat_entry g m1 c = fat_entry g m0 c"
proof -
  from assms[rule_format, of 0] assms[rule_format, of 1]
  have "ram m1 (sdCardFatTable g + 2 * ucast c) = ram m0 (sdCardFatTable g + 2 * ucast c)"
    "ram m1 (sdCardFatTable g + 2 * ucast c + 1) = ram m0 (sdCardFatTable g + 2 * ucast c + 1)"
    by simp_all
  then show ?thesis by (simp add: fat_entry_def le16_def)
qed

lemma concat_chain:
  "concat (map f [0..<Suc n]) = f 0 @ concat (map (\<lambda>j. f (Suc j)) [0..<n])"
proof -
  have "[0..<Suc n] = 0 # map Suc [0..<n]"
    by (simp only: map_Suc_upt upt_conv_Cons zero_less_Suc if_True)
  then show ?thesis by (simp only: list.map concat.simps map_map o_def)
qed

lemma cluster_loop_inv:
  assumes run: "cluster_loop g fl i (br, addr, c, m) = (SUCCESS, m')"
    and inv: "file_inv ss L A m0 P br addr m"
    and ss: "ss = unat (sector_size (sdCardFatBootSector g))"
    and i: "i \<le> unat (cluster_count g fl)"
  shows "\<exists>P' br' addr'.
           file_inv ss L A m0 (P @ P') br' addr' m' \<and>
           length P' =
             (unat (cluster_count g fl) - i) * unat (sectors_per_cluster (sdCardFatBootSector g)) \<and>
           ((\<forall>j<unat (cluster_count g fl) - i. \<forall>k<2.
                L + 512 \<le> unat (sdCardFatTable g + 2 * ucast ((fat_entry g m0 ^^ j) c) + of_nat k - A)) \<longrightarrow>
              read_sectors P' =
                concat (map (\<lambda>j. map (\<lambda>s. cluster_first_sector g ((fat_entry g m0 ^^ j) c) + of_nat s)
                                   [0..<unat (sectors_per_cluster (sdCardFatBootSector g))])
                          [0..<unat (cluster_count g fl) - i]))"
  using run inv i
proof (induction "unat (cluster_count g fl) - i" arbitrary: i br addr c m P)
  case 0
  then have "\<not> i < unat (cluster_count g fl)" by simp
  with "0.prems"(1) have "m' = m"
    by (subst (asm) cluster_loop.simps) (simp split: if_splits)
  with "0.prems"(2) "0.hyps"[symmetric] show ?case by auto
next
  case (Suc n)
  let ?N = "unat (cluster_count g fl)"
  let ?spc = "unat (sectors_per_cluster (sdCardFatBootSector g))"
  let ?F = "fat_entry g m0"
  let ?apart = "\<lambda>N c. \<forall>j<N. \<forall>k<2.
      L + 512 \<le> unat (sdCardFatTable g + 2 * ucast ((?F ^^ j) c) + of_nat k - A)"
  from Suc.hyps(2) have lt: "i < ?N" by simp
  then have n: "n = ?N - Suc i" and le: "Suc i \<le> ?N" and Ni: "?N - i = Suc n"
    using Suc.hyps(2) by simp_all
  from Suc.prems(1) have nz: "sectors_per_cluster (sdCardFatBootSector g) \<noteq> 0"
    "sector_size (sdCardFatBootSector g) \<noteq> 0"
    by (subst (asm) cluster_loop.simps; auto split: if_splits)+
  then have sspos: "0 < ss" by (simp add: ss unat_gt_0)
  obtain r br1 addr1 m1 where
    sl: "sector_loop g (cluster_first_sector g c) 0 (br, addr, m) = (r, br1, addr1, m1)"
    by (metis prod_cases4)
  from Suc.prems(1) lt nz sl have r: "r = SUCCESS"
    by (subst (asm) cluster_loop.simps) (auto split: if_splits)
  from Suc.prems(1) lt nz sl r
  have run': "cluster_loop g fl (Suc i) (br1, addr1, fat_entry g m1 c, m1) = (SUCCESS, m')"
    by (subst (asm) cluster_loop.simps) simp
  from sector_loop_inv[OF sl[unfolded r] Suc.prems(2) ss sspos] obtain P1 where
    P1: "length P1 = ?spc"
      "read_sectors P1 = map (\<lambda>j. cluster_first_sector g c + of_nat j) [0..<?spc]"
      "file_inv ss L A m0 (P @ P1) br1 addr1 m1"
    by auto
  from Suc.hyps(1)[OF n run' P1(3) le] obtain P2 br2 addr2 where
    P2: "file_inv ss L A m0 ((P @ P1) @ P2) br2 addr2 m'"
      "length P2 = (?N - Suc i) * ?spc"
      "?apart (?N - Suc i) (fat_entry g m1 c) \<longrightarrow>
         read_sectors P2 =
           concat (map (\<lambda>j. map (\<lambda>s. cluster_first_sector g ((?F ^^ j) (fat_entry g m1 c)) + of_nat s)
                              [0..<?spc])
                     [0..<?N - Suc i])"
    by blast
  have inv': "file_inv ss L A m0 (P @ (P1 @ P2)) br2 addr2 m'" using P2(1) by simp
  have len: "length (P1 @ P2) = (?N - i) * ?spc"
    using P1(1) P2(2) n Ni by simp
  have chain: "read_sectors (P1 @ P2) =
      concat (map (\<lambda>j. map (\<lambda>s. cluster_first_sector g ((?F ^^ j) c) + of_nat s) [0..<?spc])
                [0..<?N - i])" if al: "?apart (?N - i) c"
  proof -
    from P1(3) have ram1: "ram m1 = stored_file A ss L (read_data (P @ P1)) (ram m0)"
      and d512: "\<forall>d\<in>set (read_data (P @ P1)). length d = 512"
      by (simp_all add: file_inv_def)
    have "\<forall>k<2. ram m1 (sdCardFatTable g + 2 * ucast c + of_nat k) =
                 ram m0 (sdCardFatTable g + 2 * ucast c + of_nat k)"
    proof (intro allI impI)
      fix k :: nat assume "k < 2"
      with al[rule_format, of 0 k] Ni
      have "L + 512 \<le> unat (sdCardFatTable g + 2 * ucast c + of_nat k - A)" by simp
      from stored_file_frame[OF d512 this]
      show "ram m1 (sdCardFatTable g + 2 * ucast c + of_nat k) =
            ram m0 (sdCardFatTable g + 2 * ucast c + of_nat k)"
        by (simp only: ram1)
    qed
    then have fe: "fat_entry g m1 c = ?F c" by (rule fat_entry_frame)
    have pw: "(?F ^^ j) (?F c) = (?F ^^ Suc j) c" for j
      by (simp only: funpow_Suc_right o_apply)
    have "?apart (?N - Suc i) (fat_entry g m1 c)"
    proof (intro allI impI)
      fix j k :: nat assume "j < ?N - Suc i" "k < 2"
      then have "Suc j < ?N - i" "k < 2" using Ni n by simp_all
      from al[rule_format, OF this]
      show "L + 512 \<le> unat (sdCardFatTable g + 2 * ucast ((?F ^^ j) (fat_entry g m1 c)) + of_nat k - A)"
        by (simp only: fe pw)
    qed
    with P2(3) have "read_sectors P2 =
        concat (map (\<lambda>j. map (\<lambda>s. cluster_first_sector g ((?F ^^ j) (fat_entry g m1 c)) + of_nat s)
                              [0..<?spc])
                  [0..<?N - Suc i])" by blast
    then have "read_sectors P2 =
        concat (map (\<lambda>j. map (\<lambda>s. cluster_first_sector g ((?F ^^ Suc j) c) + of_nat s) [0..<?spc])
                  [0..<n])"
      by (simp only: fe pw n[symmetric])
    with P1(2) show ?thesis
      unfolding Ni concat_chain[of _ n] by simp
  qed
  from inv' len chain show ?case by blast
qed


text \<open>The reads logged between two machine states.\<close>

definition file_reads :: "machine \<Rightarrow> machine \<Rightarrow> (u32 \<times> storage \<times> u8 list) list" where
  "file_reads m m' = drop (length (sd_reads m)) (sd_reads m')"

lemma unat_cluster_count:
  "unat (cluster_count g fl) =
     (1 + (unat fl div unat (sectors_per_cluster (sdCardFatBootSector g)))
            div unat (sector_size (sdCardFatBootSector g))) mod 2 ^ 32"
proof -
  let ?spc = "sectors_per_cluster (sdCardFatBootSector g)"
  let ?ss = "sector_size (sdCardFatBootSector g)"
  have u1: "unat (ucast ?spc :: u32) = unat ?spc" by (simp add: unat_ucast_up)
  have u2: "unat (ucast ?ss :: u32) = unat ?ss" by (simp add: unat_ucast_up)
  have a: "unat (fl div ucast ?spc) = unat fl div unat ?spc"
    by (simp only: unat_div u1)
  have b: "unat ((fl div ucast ?spc) div ucast ?ss) = (unat fl div unat ?spc) div unat ?ss"
    by (simp only: unat_div u1 u2)
  have "unat (1 + (fl div ucast ?spc) div ucast ?ss) =
      (unat (1 :: u32) + unat ((fl div ucast ?spc) div ucast ?ss)) mod 2 ^ LENGTH(32)"
    by (rule unat_word_ariths(1))
  then show ?thesis by (simp add: cluster_count_def b)
qed

lemma enough_sectors:
  fixes L spc :: nat
  assumes "0 < spc"
  shows "(L - 1) div 512 < (1 + (L div spc) div 512) * spc"
proof -
  let ?a = "L div spc"
  have "L < spc + spc * ?a" by (rule dividend_less_times_div[OF assms])
  then have 1: "L < (?a + 1) * spc" by (simp add: algebra_simps)
  have "?a < 512 + 512 * (?a div 512)" by (rule dividend_less_times_div) simp
  then have "?a + 1 \<le> 512 * (1 + ?a div 512)" by simp
  then have "(?a + 1) * spc \<le> (512 * (1 + ?a div 512)) * spc" by (rule mult_le_mono1)
  with 1 have "L < (512 * (1 + ?a div 512)) * spc" by (rule less_le_trans)
  moreover have "(512 * (1 + ?a div 512)) * spc = ((1 + ?a div 512) * spc) * 512"
    by (simp only: mult_ac)
  ultimately have "L < ((1 + ?a div 512) * spc) * 512" by (simp only:)
  then have "L - 1 < ((1 + ?a div 512) * spc) * 512" by simp
  then show ?thesis by (simp only: div_less_iff_less_mult zero_less_numeral)
qed

lemma final_copy_length:
  fixes L :: nat
  assumes "0 < L"
  shows "L - 512 * ((L - 1) div 512) = (if L mod 512 = 0 then 512 else L mod 512)"
proof -
  define q where "q = (L - 1) div 512"
  define r where "r = (L - 1) mod 512"
  have "L - 1 = 512 * q + r" by (simp add: q_def r_def)
  with assms have e: "L = 512 * q + (r + 1)" by linarith
  have r: "r < 512" by (simp add: r_def)
  have d: "L - 512 * q = r + 1" using e by linarith
  have "L mod 512 = (r + 1) mod 512" by (subst e) (simp only: mod_mult_self4)
  then have m: "L mod 512 = (if r = 511 then 0 else r + 1)" using r by auto
  show ?thesis unfolding q_def[symmetric] d m by auto
qed

lemma length_concat_512:
  "\<forall>d\<in>set ds. length d = 512 \<Longrightarrow> length (concat ds) = 512 * length ds"
  by (induction ds) simp_all

lemma take_concat_512:
  assumes len: "\<forall>d\<in>set ds. length d = 512" and q: "q < length ds"
    and lo: "512 * q < L" and hi: "L \<le> 512 * Suc q"
  shows "take L (concat ds) = concat (take q ds) @ take (L - 512 * q) (ds ! q)"
proof -
  have split: "ds = take q ds @ ds ! q # drop (Suc q) ds" by (rule id_take_nth_drop[OF q])
  have "\<forall>d\<in>set (take q ds). length d = 512" using len by (meson in_set_takeD)
  then have l1: "length (concat (take q ds)) = 512 * q"
    using q by (simp add: length_concat_512)
  have l2: "length (ds ! q) = 512" using len q by simp
  have "concat ds = concat (take q ds) @ ds ! q @ concat (drop (Suc q) ds)"
    by (subst split) simp
  then have "take L (concat ds) =
      take L (concat (take q ds) @ ds ! q @ concat (drop (Suc q) ds))" by simp
  also have "\<dots> = concat (take q ds) @ take (L - 512 * q) (ds ! q @ concat (drop (Suc q) ds))"
    using lo by (simp add: l1)
  also have "take (L - 512 * q) (ds ! q @ concat (drop (Suc q) ds)) = take (L - 512 * q) (ds ! q)"
    using hi by (simp add: l2)
  finally show ?thesis .
qed

lemma file_inv_init: "file_inv ss (unat fl) address m [] fl address m"
  by (simp add: file_inv_def)

lemma readFile_success:
  assumes n: "n < unat (root_dir_entries (sdCardFatBootSector g))"
    and match: "name_match g m filename ext n = 1"
    and first: "\<forall>k<n. name_match g m filename ext k \<noteq> 1"
    and size: "entry_file_size g m n \<noteq> 0"
    and run: "spi_sdcard_readFile filename ext address g m = Some (SUCCESS, m')"
  shows "\<exists>br addr.
     file_inv (unat (sector_size (sdCardFatBootSector g))) (unat (entry_file_size g m n)) address m
       (file_reads m m') br addr m' \<and>
     length (file_reads m m') =
       unat (cluster_count g (entry_file_size g m n)) *
       unat (sectors_per_cluster (sdCardFatBootSector g)) \<and>
     sectors_per_cluster (sdCardFatBootSector g) \<noteq> 0 \<and>
     sector_size (sdCardFatBootSector g) \<noteq> 0 \<and>
     ((\<forall>j<unat (cluster_count g (entry_file_size g m n)). \<forall>k<2.
          unat (entry_file_size g m n) + 512
           \<le> unat (sdCardFatTable g +
                      2 * ucast ((fat_entry g m ^^ j) (entry_starting_cluster g m n)) +
                      of_nat k - address)) \<longrightarrow>
      read_sectors (file_reads m m') =
        concat (map (\<lambda>j. map (\<lambda>s. cluster_first_sector g
                                    ((fat_entry g m ^^ j) (entry_starting_cluster g m n)) + of_nat s)
                           [0..<unat (sectors_per_cluster (sdCardFatBootSector g))])
                  [0..<unat (cluster_count g (entry_file_size g m n))]))"
proof -
  let ?c = "entry_starting_cluster g m n"
  let ?fl = "entry_file_size g m n"
  have scan: "dir_scan g m filename ext (0, 0, 0) =
      (if ?c = 0 then None else Some (?c, ?fl, n))"
    by (rule dir_scan_first[OF n match first])
  from run have c: "?c \<noteq> 0"
    by (auto simp: spi_sdcard_readFile_def scan)
  with run size have cl: "cluster_loop g ?fl 0 (?fl, address, ?c, m) = (SUCCESS, m')"
    by (simp add: spi_sdcard_readFile_def scan)
  then have nz: "sectors_per_cluster (sdCardFatBootSector g) \<noteq> 0"
    "sector_size (sdCardFatBootSector g) \<noteq> 0"
    by (subst (asm) cluster_loop.simps; auto split: if_splits)+
  from cluster_loop_inv[OF cl file_inv_init refl le0] obtain P br addr where
    P: "file_inv (unat (sector_size (sdCardFatBootSector g))) (unat ?fl) address m ([] @ P) br addr m'"
      "length P = (unat (cluster_count g ?fl) - 0) * unat (sectors_per_cluster (sdCardFatBootSector g))"
      "(\<forall>j<unat (cluster_count g ?fl) - 0. \<forall>k<2.
          unat ?fl + 512 \<le> unat (sdCardFatTable g + 2 * ucast ((fat_entry g m ^^ j) ?c) + of_nat k - address)) \<longrightarrow>
         read_sectors P =
           concat (map (\<lambda>j. map (\<lambda>s. cluster_first_sector g ((fat_entry g m ^^ j) ?c) + of_nat s)
                              [0..<unat (sectors_per_cluster (sdCardFatBootSector g))])
                     [0..<unat (cluster_count g ?fl) - 0])"
    by blast
  from P(1) have "sd_reads m' = sd_reads m @ P" by (simp add: file_inv_def)
  then have new: "file_reads m m' = P" by (simp add: file_reads_def)
  from P nz show ?thesis unfolding new by auto
qed

subsection \<open>Sample volumes\<close>

text \<open>On the card \<open>block_card blocks\<close> every read is answered at once, so both loops run
  to the end.\<close>

definition on_block_card :: "(nat \<Rightarrow> nat \<Rightarrow> u8) \<Rightarrow> machine \<Rightarrow> bool" where
  "on_block_card blocks m \<longleftrightarrow> card (bus m) = block_card blocks \<and> pos (bus m) mod 528 = 0"

lemma readSector_on_block_card:
  assumes "on_block_card blocks m"
  shows "fst (readSector sec p m) = SUCCESS"
    and "on_block_card blocks (snd (readSector sec p m))"
proof -
  from assms have c: "card (bus m) = block_card blocks"
    and z: "pos (bus m) mod 528 = 0"
    by (simp_all add: on_block_card_def)
  from z have k: "pos (bus m) = 528 * (pos (bus m) div 528)"
    by (metis add.right_neutral mult_div_mod_eq)
  note R = readSector_block_card[OF c k]
  show "fst (readSector sec p m) = SUCCESS" by (rule R(1))
  show "on_block_card blocks (snd (readSector sec p m))"
    unfolding on_block_card_def using R(2)[of sec p] R(3)[of sec p] by simp
qed

lemma memcpy_on_block_card [simp]:
  "on_block_card blocks (memcpy_sector a k m) = on_block_card blocks m"
  by (simp add: on_block_card_def)

lemma sector_loop_on_block_card:
  assumes "on_block_card blocks m"
    and ss: "sector_size (sdCardFatBootSector g) = 512"
  shows "fst (sector_loop g css s (br, addr, m)) = SUCCESS \<and>
         on_block_card blocks (snd (snd (snd (sector_loop g css s (br, addr, m)))))"
  using assms(1)
proof (induction "unat (sectors_per_cluster (sdCardFatBootSector g)) - s" arbitrary: s br addr m)
  case 0
  then have "\<not> s < unat (sectors_per_cluster (sdCardFatBootSector g))" by simp
  then have "sector_loop g css s (br, addr, m) = (SUCCESS, br, addr, m)"
    by (subst sector_loop.simps) simp
  with "0.prems" show ?case by simp
next
  case (Suc n)
  then have lt: "s < unat (sectors_per_cluster (sdCardFatBootSector g))"
    and n: "n = unat (sectors_per_cluster (sdCardFatBootSector g)) - Suc s"
    by simp_all
  show ?case
  proof (cases "512 < br")
    case True
    note R = readSector_on_block_card[OF Suc.prems, of "css + of_nat s" "Ram addr"]
    have "sector_loop g css s (br, addr, m) =
        sector_loop g css (Suc s) (br - 512, addr + 512,
          snd (readSector (css + of_nat s) (Ram addr) m))"
      using lt True R(1) by (subst sector_loop.simps) (simp add: ss case_prod_beta)
    with Suc.hyps(1)[OF n R(2)] show ?thesis by simp
  next
    case False
    then have fit: "\<not> 512 < unat br" by (simp add: word_less_nat_alt)
    note R = readSector_on_block_card[OF Suc.prems, of "css + of_nat s" Scratch]
    have "sector_loop g css s (br, addr, m) =
        sector_loop g css (Suc s) (0, addr,
          memcpy_sector addr (unat br) (snd (readSector (css + of_nat s) Scratch m)))"
      using lt False fit R(1) by (subst sector_loop.simps) (simp add: ss case_prod_beta)
    moreover have "on_block_card blocks
        (memcpy_sector addr (unat br) (snd (readSector (css + of_nat s) Scratch m)))"
      using R(2) by simp
    ultimately show ?thesis using Suc.hyps(1)[OF n] by simp
  qed
qed

lemma cluster_loop_on_block_card:
  assumes "on_block_card blocks m"
    and ss: "sector_size (sdCardFatBootSector g) = 512"
    and spc: "sectors_per_cluster (sdCardFatBootSector g) \<noteq> 0"
  shows "fst (cluster_loop g fl i (br, addr, c, m)) = SUCCESS"
  using assms(1)
proof (induction "unat (cluster_count g fl) - i" arbitrary: i br addr c m)
  case 0
  then have "\<not> i < unat (cluster_count g fl)" by simp
  then show ?case using ss spc by (subst cluster_loop.simps) simp
next
  case (Suc n)
  then have lt: "i < unat (cluster_count g fl)" and n: "n = unat (cluster_count g fl) - Suc i"
    by simp_all
  let ?sl = "sector_loop g (cluster_first_sector g c) 0 (br, addr, m)"
  note S = sector_loop_on_block_card[OF Suc.prems ss, of "cluster_first_sector g c" 0 br addr]
  have "cluster_loop g fl i (br, addr, c, m) =
      cluster_loop g fl (Suc i)
        (fst (snd ?sl), fst (snd (snd ?sl)), fat_entry g (snd (snd (snd ?sl))) c, snd (snd (snd ?sl)))"
    using lt ss spc S by (subst cluster_loop.simps) (simp add: case_prod_beta)
  with Suc.hyps(1)[OF n] S show ?case by simp
qed

lemma readFile_found:
  assumes "n < unat (root_dir_entries (sdCardFatBootSector g))"
    and "name_match g m filename ext n = 1"
    and "\<forall>k<n. name_match g m filename ext k \<noteq> 1"
    and "entry_starting_cluster g m n \<noteq> 0"
    and "entry_file_size g m n \<noteq> 0"
  shows "spi_sdcard_readFile filename ext address g m =
         Some (cluster_loop g (entry_file_size g m n) 0
                 (entry_file_size g m n, address, entry_starting_cluster g m n, m))"
  using assms(4,5) by (simp add: spi_sdcard_readFile_def dir_scan_first[OF assms(1,2,3)])


text \<open>\<open>volume_machine entries fat blocks\<close> has the directory entries \<open>entries\<close> in the
  directory buffer and the bytes \<open>fat\<close> in the allocation-table buffer of
  \<open>sample_globals\<close>. \<open>data_volume\<close> holds \<^verbatim>\<open>README  TXT\<close> and then \<^verbatim>\<open>DATA    BIN\<close>, 2600
  bytes from cluster 2, whose table entry is 3. \<open>big_volume\<close> holds \<^verbatim>\<open>README  TXT\<close> and
  then \<^verbatim>\<open>BIG     BIN\<close>, 2048 bytes (exactly one cluster) from cluster 2, whose table
  entry is the end-of-chain marker \<^verbatim>\<open>0xFFFF\<close>. Both are loaded to address \<^verbatim>\<open>0x20000\<close>. The
  card delivers \<open>ramp_blocks k\<close> as the data of its \<open>k\<close>-th read.\<close>

definition volume_machine :: "u8 list \<Rightarrow> u8 list \<Rightarrow> (nat \<Rightarrow> nat \<Rightarrow> u8) \<Rightarrow> machine" where
  "volume_machine entries fat blocks =
     \<lparr>bus = spi0 (block_card blocks),
      ram = store_bytes 0x10000 entries (store_bytes 0x10200 fat (\<lambda>a. 0)),
      sdCardSector = (\<lambda>n. 0), sd_reads = []\<rparr>"

definition ramp_blocks :: "nat \<Rightarrow> nat \<Rightarrow> u8" where
  "ramp_blocks k n = of_nat (16 * k + n)"

definition data_entry :: "u8 list" where
  "data_entry = dir_entry [0x44, 0x41, 0x54, 0x41, 0x20, 0x20, 0x20, 0x20] [0x42, 0x49, 0x4e] 2 2600"

definition big_entry :: "u8 list" where
  "big_entry = dir_entry [0x42, 0x49, 0x47, 0x20, 0x20, 0x20, 0x20, 0x20] [0x42, 0x49, 0x4e] 2 2048"

definition name_DATA :: "u8 list" where "name_DATA = [0x44, 0x41, 0x54, 0x41]"
definition name_BIG :: "u8 list" where "name_BIG = [0x42, 0x49, 0x47]"
definition ext_BIN :: "u8 list" where "ext_BIN = [0x42, 0x49, 0x4e]"

definition data_volume :: machine where
  "data_volume =
     volume_machine (readme_entry @ data_entry)
       [0xf8, 0xff, 0xff, 0xff, 0x03, 0x00, 0xff, 0xff] ramp_blocks"

definition big_volume :: machine where
  "big_volume =
     volume_machine (readme_entry @ big_entry) [0xf8, 0xff, 0xff, 0xff, 0xff, 0xff] ramp_blocks"

definition data_loaded :: machine where
  "data_loaded = snd (the (spi_sdcard_readFile name_DATA ext_BIN 0x20000 sample_globals data_volume))"

definition big_loaded :: machine where
  "big_loaded = snd (the (spi_sdcard_readFile name_BIG ext_BIN 0x20000 sample_globals big_volume))"

lemma volume_machine_sel [simp]:
  "bus (volume_machine es fat b) = spi0 (block_card b)"
  "ram (volume_machine es fat b) = store_bytes 0x10000 es (store_bytes 0x10200 fat (\<lambda>a. 0))"
  "sdCardSector (volume_machine es fat b) = (\<lambda>n. 0)"
  "sd_reads (volume_machine es fat b) = []"
  by (simp_all add: volume_machine_def)

lemma volume_on_block_card: "on_block_card b (volume_machine es fat b)"
  by (simp add: on_block_card_def spi0_def)

lemma volume_entry_bytes:
  assumes "length es \<le> 512" "n < 16" "off < 32" "32 * n + off < length es"
  shows "entry_bytes sample_globals (volume_machine es fat b) n off = es ! (32 * n + off)"
proof -
  from assms(1) have "length es \<le> 2 ^ 32" by simp
  then show ?thesis
    using unat_entry_offset[OF assms(2,3)] assms(4)
    by (simp add: entry_bytes_def store_bytes_value)
qed

lemmas volume_eval =
  name_match_def cmp_loop.simps entry_filename_def entry_ext_def entry_starting_cluster_def
  entry_file_size_def le16_def le32_def volume_entry_bytes data_volume_def big_volume_def
  readme_entry_def data_entry_def big_entry_def dir_entry_def nth_append
  name_DATA_def name_BIG_def ext_BIN_def strlen_def

lemma data_volume_entries:
  "name_match sample_globals data_volume name_DATA ext_BIN 0 \<noteq> 1"
  "name_match sample_globals data_volume name_DATA ext_BIN 1 = 1"
  "entry_starting_cluster sample_globals data_volume 1 = 2"
  "entry_file_size sample_globals data_volume 1 = 2600"
  by (simp_all add: volume_eval)

lemma big_volume_entries:
  "name_match sample_globals big_volume name_BIG ext_BIN 0 \<noteq> 1"
  "name_match sample_globals big_volume name_BIG ext_BIN 1 = 1"
  "entry_starting_cluster sample_globals big_volume 1 = 2"
  "entry_file_size sample_globals big_volume 1 = 2048"
  by (simp_all add: volume_eval)

lemma big_volume_fat: "fat_entry sample_globals big_volume 2 = 0xffff"
  by (simp add: fat_entry_def le16_def big_volume_def store_bytes_value readme_entry_def
      big_entry_def dir_entry_def)

lemma data_volume_fat: "fat_entry sample_globals data_volume 2 = 3"
  by (simp add: fat_entry_def le16_def data_volume_def store_bytes_value readme_entry_def
      data_entry_def dir_entry_def)


lemma data_volume_hyps:
  "(1::nat) < unat (root_dir_entries (sdCardFatBootSector sample_globals))"
  "\<forall>k<1. name_match sample_globals data_volume name_DATA ext_BIN k \<noteq> 1"
  "entry_starting_cluster sample_globals data_volume 1 \<noteq> 0"
  "entry_file_size sample_globals data_volume 1 \<noteq> 0"
proof -
  show "(1::nat) < unat (root_dir_entries (sdCardFatBootSector sample_globals))" by simp
  show "\<forall>k<1. name_match sample_globals data_volume name_DATA ext_BIN k \<noteq> 1"
  proof (intro allI impI)
    fix k :: nat assume "k < 1"
    then have "k = 0" by simp
    then show "name_match sample_globals data_volume name_DATA ext_BIN k \<noteq> 1"
      by (simp only: data_volume_entries(1) not_False_eq_True)
  qed
  show "entry_starting_cluster sample_globals data_volume 1 \<noteq> 0"
    unfolding data_volume_entries by simp
  show "entry_file_size sample_globals data_volume 1 \<noteq> 0"
    unfolding data_volume_entries by simp
qed

lemma big_volume_hyps:
  "(1::nat) < unat (root_dir_entries (sdCardFatBootSector sample_globals))"
  "\<forall>k<1. name_match sample_globals big_volume name_BIG ext_BIN k \<noteq> 1"
  "entry_starting_cluster sample_globals big_volume 1 \<noteq> 0"
  "entry_file_size sample_globals big_volume 1 \<noteq> 0"
proof -
  show "(1::nat) < unat (root_dir_entries (sdCardFatBootSector sample_globals))" by simp
  show "\<forall>k<1. name_match sample_globals big_volume name_BIG ext_BIN k \<noteq> 1"
  proof (intro allI impI)
    fix k :: nat assume "k < 1"
    then have "k = 0" by simp
    then show "name_match sample_globals big_volume name_BIG ext_BIN k \<noteq> 1"
      by (simp only: big_volume_entries(1) not_False_eq_True)
  qed
  show "entry_starting_cluster sample_globals big_volume 1 \<noteq> 0"
    unfolding big_volume_entries by simp
  show "entry_file_size sample_globals big_volume 1 \<noteq> 0"
    unfolding big_volume_entries by simp
qed

lemma data_volume_run:
  "spi_sdcard_readFile name_DATA ext_BIN 0x20000 sample_globals data_volume = Some (SUCCESS, data_loaded)"
proof -
  let ?r = "cluster_loop sample_globals (entry_file_size sample_globals data_volume 1) 0
      (entry_file_size sample_globals data_volume 1, 0x20000,
       entry_starting_cluster sample_globals data_volume 1, data_volume)"
  have "spi_sdcard_readFile name_DATA ext_BIN 0x20000 sample_globals data_volume = Some ?r"
    by (rule readFile_found[OF data_volume_hyps(1) data_volume_entries(2) data_volume_hyps(2,3,4)])
  moreover have "fst ?r = SUCCESS"
    by (rule cluster_loop_on_block_card[of ramp_blocks])
      (simp_all add: data_volume_def volume_on_block_card)
  ultimately show ?thesis
    unfolding data_loaded_def by (metis option.sel prod.collapse)
qed

lemma big_volume_run:
  "spi_sdcard_readFile name_BIG ext_BIN 0x20000 sample_globals big_volume = Some (SUCCESS, big_loaded)"
proof -
  let ?r = "cluster_loop sample_globals (entry_file_size sample_globals big_volume 1) 0
      (entry_file_size sample_globals big_volume 1, 0x20000,
       entry_starting_cluster sample_globals big_volume 1, big_volume)"
  have "spi_sdcard_readFile name_BIG ext_BIN 0x20000 sample_globals big_volume = Some ?r"
    by (rule readFile_found[OF big_volume_hyps(1) big_volume_entries(2) big_volume_hyps(2,3,4)])
  moreover have "fst ?r = SUCCESS"
    by (rule cluster_loop_on_block_card[of ramp_blocks])
      (simp_all add: big_volume_def volume_on_block_card)
  ultimately show ?thesis
    unfolding big_loaded_def by (metis option.sel prod.collapse)
qed

lemma data_reads_length: "length (file_reads data_volume data_loaded) = 8"
proof -
  from readFile_success[OF data_volume_hyps(1) data_volume_entries(2) data_volume_hyps(2,4)
      data_volume_run]
  have "length (file_reads data_volume data_loaded) =
      unat (cluster_count sample_globals (entry_file_size sample_globals data_volume 1)) *
      unat (sectors_per_cluster (sdCardFatBootSector sample_globals))"
    by blast
  then show ?thesis unfolding unat_cluster_count data_volume_entries by simp
qed


text \<open>The 512 data bytes of the \<open>k\<close>-th read from \<open>block_card blocks\<close>.\<close>

definition card_block :: "(nat \<Rightarrow> nat \<Rightarrow> u8) \<Rightarrow> nat \<Rightarrow> u8 list" where
  "card_block blocks k = map (blocks k) [0..<512]"

lemma card_block_nth: "n < 512 \<Longrightarrow> card_block blocks k ! n = blocks k n"
  unfolding card_block_def by (rule nth_map_512)

lemma card_block_length [simp]: "length (card_block blocks k) = 512"
  by (simp add: card_block_def)

lemma readSector_block_data:
  assumes "on_block_card blocks m"
  shows "sd_reads (snd (readSector sec p m)) =
           sd_reads m @ [(sec, p, card_block blocks (pos (bus m) div 528))]"
    and "pos (bus (snd (readSector sec p m))) = pos (bus m) + 528"
proof -
  from assms have c: "card (bus m) = block_card blocks"
    and z: "pos (bus m) mod 528 = 0"
    by (simp_all add: on_block_card_def)
  from z have k: "pos (bus m) = 528 * (pos (bus m) div 528)"
    by (metis add.right_neutral mult_div_mod_eq)
  note R = readSector_block_card[OF c k]
  show "sd_reads (snd (readSector sec p m)) =
           sd_reads m @ [(sec, p, card_block blocks (pos (bus m) div 528))]"
    unfolding card_block_def by (rule R(5))
  show "pos (bus (snd (readSector sec p m))) = pos (bus m) + 528"
    using R(2)[of sec p] k by simp
qed

lemma map_upt_Suc_Cons: "map f [0..<Suc n] = f 0 # map (\<lambda>j. f (Suc j)) [0..<n]"
proof -
  have "[0..<Suc n] = 0 # map Suc [0..<n]"
    by (simp only: map_Suc_upt upt_conv_Cons zero_less_Suc if_True)
  then show ?thesis by (simp only: list.map map_map o_def)
qed

lemma map_upt_add: "map f [0..<a + b] = map f [0..<a] @ map (\<lambda>j. f (a + j)) [0..<b]"
proof (induction b)
  case 0
  then show ?case by simp
next
  case (Suc b)
  then show ?case by simp
qed

lemma sector_loop_block_data:
  assumes "on_block_card blocks m"
    and ss: "sector_size (sdCardFatBootSector g) = 512"
  shows "\<exists>P. sd_reads (snd (snd (snd (sector_loop g css s (br, addr, m))))) = sd_reads m @ P \<and>
           read_data P =
             map (\<lambda>j. card_block blocks (pos (bus m) div 528 + j))
               [0..<unat (sectors_per_cluster (sdCardFatBootSector g)) - s] \<and>
           pos (bus (snd (snd (snd (sector_loop g css s (br, addr, m)))))) =
             pos (bus m) + 528 * (unat (sectors_per_cluster (sdCardFatBootSector g)) - s)"
  using assms(1)
proof (induction "unat (sectors_per_cluster (sdCardFatBootSector g)) - s" arbitrary: s br addr m)
  case 0
  then have "\<not> s < unat (sectors_per_cluster (sdCardFatBootSector g))" by simp
  then have "sector_loop g css s (br, addr, m) = (SUCCESS, br, addr, m)"
    by (subst sector_loop.simps) simp
  with "0.hyps"[symmetric] show ?case by simp
next
  case (Suc n)
  let ?spc = "unat (sectors_per_cluster (sdCardFatBootSector g))"
  let ?k = "pos (bus m) div 528"
  from Suc.hyps(2) have lt: "s < ?spc" and n: "n = ?spc - Suc s" and sn: "?spc - s = Suc n"
    by simp_all
  from Suc.prems have z: "pos (bus m) mod 528 = 0" by (simp add: on_block_card_def)
  then have k1: "(pos (bus m) + 528) div 528 = Suc ?k" by simp
  have step: "\<exists>P. sd_reads (snd (snd (snd (sector_loop g css (Suc s) (br1, addr1, m1))))) = sd_reads m @ P \<and>
           read_data P = map (\<lambda>j. card_block blocks (?k + j)) [0..<Suc n] \<and>
           pos (bus (snd (snd (snd (sector_loop g css (Suc s) (br1, addr1, m1)))))) =
             pos (bus m) + 528 * Suc n"
    if on: "on_block_card blocks m1"
      and log: "sd_reads m1 = sd_reads m @ [(sec, p, card_block blocks ?k)]"
      and ps: "pos (bus m1) = pos (bus m) + 528"
    for br1 addr1 m1 sec p
  proof -
    from Suc.hyps(1)[OF n on, of br1 addr1] obtain P where
      P: "sd_reads (snd (snd (snd (sector_loop g css (Suc s) (br1, addr1, m1))))) = sd_reads m1 @ P"
        "read_data P = map (\<lambda>j. card_block blocks (pos (bus m1) div 528 + j)) [0..<n]"
        "pos (bus (snd (snd (snd (sector_loop g css (Suc s) (br1, addr1, m1)))))) =
           pos (bus m1) + 528 * n"
      unfolding n[symmetric] by blast
    have "read_data ((sec, p, card_block blocks ?k) # P) =
        map (\<lambda>j. card_block blocks (?k + j)) [0..<Suc n]"
      unfolding map_upt_Suc_Cons using P(2) by (simp add: ps k1)
    moreover have "sd_reads (snd (snd (snd (sector_loop g css (Suc s) (br1, addr1, m1))))) =
        sd_reads m @ (sec, p, card_block blocks ?k) # P"
      using P(1) log by simp
    moreover have "pos (bus (snd (snd (snd (sector_loop g css (Suc s) (br1, addr1, m1)))))) =
        pos (bus m) + 528 * Suc n"
      using P(3) ps by simp
    ultimately show ?thesis by blast
  qed
  show ?case
  proof (cases "512 < br")
    case True
    note R = readSector_on_block_card[OF Suc.prems, of "css + of_nat s" "Ram addr"]
    note D = readSector_block_data[OF Suc.prems, of "css + of_nat s" "Ram addr"]
    have "sector_loop g css s (br, addr, m) =
        sector_loop g css (Suc s) (br - 512, addr + 512,
          snd (readSector (css + of_nat s) (Ram addr) m))"
      using lt True R(1) by (subst sector_loop.simps) (simp add: ss case_prod_beta)
    with step[OF R(2) D] show ?thesis unfolding sn by simp
  next
    case False
    then have fit: "\<not> 512 < unat br" by (simp add: word_less_nat_alt)
    note R = readSector_on_block_card[OF Suc.prems, of "css + of_nat s" Scratch]
    note D = readSector_block_data[OF Suc.prems, of "css + of_nat s" Scratch]
    let ?m1 = "memcpy_sector addr (unat br) (snd (readSector (css + of_nat s) Scratch m))"
    have "sector_loop g css s (br, addr, m) = sector_loop g css (Suc s) (0, addr, ?m1)"
      using lt False fit R(1) by (subst sector_loop.simps) (simp add: ss case_prod_beta)
    moreover have "on_block_card blocks ?m1" using R(2) by simp
    moreover have "sd_reads ?m1 =
        sd_reads m @ [(css + of_nat s, Scratch, card_block blocks ?k)]"
      using D(1) by simp
    moreover have "pos (bus ?m1) = pos (bus m) + 528" using D(2) by simp
    ultimately show ?thesis using step[of ?m1 "css + of_nat s" Scratch 0 addr] unfolding sn by simp
  qed
qed

lemma cluster_loop_block_data:
  assumes "on_block_card blocks m"
    and ss: "sector_size (sdCardFatBootSector g) = 512"
    and spc: "sectors_per_cluster (sdCardFatBootSector g) \<noteq> 0"
  shows "\<exists>P. sd_reads (snd (cluster_loop g fl i (br, addr, c, m))) = sd_reads m @ P \<and>
           read_data P =
             map (\<lambda>j. card_block blocks (pos (bus m) div 528 + j))
               [0..<(unat (cluster_count g fl) - i) *
                    unat (sectors_per_cluster (sdCardFatBootSector g))]"
  using assms(1)
proof (induction "unat (cluster_count g fl) - i" arbitrary: i br addr c m)
  case 0
  then have "\<not> i < unat (cluster_count g fl)" by simp
  then have "cluster_loop g fl i (br, addr, c, m) = (SUCCESS, m)"
    using ss spc by (subst cluster_loop.simps) simp
  with "0.hyps"[symmetric] show ?case by simp
next
  case (Suc n)
  let ?spc = "unat (sectors_per_cluster (sdCardFatBootSector g))"
  let ?k = "pos (bus m) div 528"
  from Suc.hyps(2) have lt: "i < unat (cluster_count g fl)"
    and n: "n = unat (cluster_count g fl) - Suc i"
    and sn: "unat (cluster_count g fl) - i = Suc n"
    by simp_all
  let ?sl = "sector_loop g (cluster_first_sector g c) 0 (br, addr, m)"
  let ?m1 = "snd (snd (snd ?sl))"
  note S = sector_loop_on_block_card[OF Suc.prems ss, of "cluster_first_sector g c" 0 br addr]
  from sector_loop_block_data[OF Suc.prems ss, of "cluster_first_sector g c" 0 br addr]
  obtain P1 where
    P1: "sd_reads ?m1 = sd_reads m @ P1"
      "read_data P1 = map (\<lambda>j. card_block blocks (?k + j)) [0..<?spc]"
      "pos (bus ?m1) = pos (bus m) + 528 * ?spc"
    by auto
  have cl: "cluster_loop g fl i (br, addr, c, m) =
      cluster_loop g fl (Suc i) (fst (snd ?sl), fst (snd (snd ?sl)), fat_entry g ?m1 c, ?m1)"
    using lt ss spc S by (subst cluster_loop.simps) (simp add: case_prod_beta)
  from S have on1: "on_block_card blocks ?m1" by simp
  from Suc.prems have "pos (bus m) mod 528 = 0" by (simp add: on_block_card_def)
  then have k1: "pos (bus ?m1) div 528 = ?k + ?spc" unfolding P1(3) by simp
  from Suc.hyps(1)[OF n on1, of "fst (snd ?sl)" "fst (snd (snd ?sl))" "fat_entry g ?m1 c"]
  obtain P2 where
    P2: "sd_reads (snd (cluster_loop g fl (Suc i)
            (fst (snd ?sl), fst (snd (snd ?sl)), fat_entry g ?m1 c, ?m1))) = sd_reads ?m1 @ P2"
      "read_data P2 = map (\<lambda>j. card_block blocks (?k + ?spc + j)) [0..<n * ?spc]"
    unfolding n[symmetric] k1 by blast
  have "read_data (P1 @ P2) =
      map (\<lambda>j. card_block blocks (?k + j)) [0..<?spc + n * ?spc]"
    unfolding map_upt_add using P1(2) P2(2) by (simp add: ac_simps)
  moreover have "sd_reads (snd (cluster_loop g fl i (br, addr, c, m))) = sd_reads m @ P1 @ P2"
    unfolding cl using P2(1) P1(1) by simp
  ultimately show ?case unfolding sn by auto
qed

lemma concat_nth_512:
  assumes "\<forall>d\<in>set ds. length d = 512" "i < 512 * length ds"
  shows "concat ds ! i = ds ! (i div 512) ! (i mod 512)"
  using assms
proof (induction ds arbitrary: i)
  case Nil
  then show ?case by simp
next
  case (Cons d ds)
  then have d: "length d = 512" and ds: "\<forall>d\<in>set ds. length d = 512" by simp_all
  show ?case
  proof (cases "i < 512")
    case True
    then show ?thesis by (simp add: nth_append d)
  next
    case False
    from False Cons.prems(2) have lt: "i - 512 < 512 * length ds" by simp
    from False have le: "512 \<le> i" by simp
    have dv: "i div 512 = Suc ((i - 512) div 512)"
      using le_div_geq[of 512 i] le by simp
    have md: "i mod 512 = (i - 512) mod 512"
      using le_mod_geq[of 512 i] le by simp
    have "concat (d # ds) ! i = concat ds ! (i - 512)"
      using False by (simp add: nth_append d)
    also have "\<dots> = ds ! ((i - 512) div 512) ! ((i - 512) mod 512)"
      by (rule Cons.IH[OF ds lt])
    finally show ?thesis by (simp only: dv md nth_Cons_Suc)
  qed
qed


lemma data_volume_blocks:
  "read_data (file_reads data_volume data_loaded) = map (card_block ramp_blocks) [0..<8]"
proof -
  let ?fl = "entry_file_size sample_globals data_volume 1"
  let ?r = "cluster_loop sample_globals ?fl 0
      (?fl, 0x20000, entry_starting_cluster sample_globals data_volume 1, data_volume)"
  have "spi_sdcard_readFile name_DATA ext_BIN 0x20000 sample_globals data_volume = Some ?r"
    by (rule readFile_found[OF data_volume_hyps(1) data_volume_entries(2) data_volume_hyps(2,3,4)])
  then have m: "data_loaded = snd ?r" by (simp add: data_loaded_def)
  have on: "on_block_card ramp_blocks data_volume"
    by (simp add: data_volume_def volume_on_block_card)
  have z: "pos (bus data_volume) div 528 = 0" "sd_reads data_volume = []"
    by (simp_all add: data_volume_def)
  from cluster_loop_block_data[OF on, of sample_globals ?fl 0 ?fl "0x20000"
      "entry_starting_cluster sample_globals data_volume 1"]
  obtain P where P: "sd_reads (snd ?r) = sd_reads data_volume @ P"
    "read_data P = map (\<lambda>j. card_block ramp_blocks (pos (bus data_volume) div 528 + j))
       [0..<(unat (cluster_count sample_globals ?fl) - 0) *
            unat (sectors_per_cluster (sdCardFatBootSector sample_globals))]"
    by auto
  have n: "(unat (cluster_count sample_globals ?fl) - 0) *
      unat (sectors_per_cluster (sdCardFatBootSector sample_globals)) = 8"
    unfolding unat_cluster_count data_volume_entries by simp
  from P(1) have "file_reads data_volume data_loaded = P"
    by (simp add: file_reads_def m z)
  with P(2) show ?thesis unfolding n z by simp
qed

lemma upt_small:
  "[0..<2] = [0, 1::nat]" "[0..<4] = [0, 1, 2, 3::nat]"
  "[0..<8] = [0, 1, 2, 3, 4, 5, 6, 7::nat]"
  by (simp_all add: eval_nat_numeral)

subsection \<open>The bytes stored\<close>



subsection \<open>The clusters visited\<close>



end
